theory Spec2Isabelle
  imports Complex_Main
begin

unbundle bit_operations_syntax

section \<open>Go values\<close>

text \<open>
  GoBuff is a Go package: \<^verbatim>\<open>buffer.go\<close> holds the \<^verbatim>\<open>Buffer\<close> type and
  \<^verbatim>\<open>pool.go\<close> the bucketed \<^verbatim>\<open>BufferPool\<close>. A Go \<^verbatim>\<open>byte\<close> is an 8-bit value, as
  a HOL \<open>char\<close> is, so \<^verbatim>\<open>[]byte\<close> contents and Go strings are both \<open>char list\<close>.
  A Go \<^verbatim>\<open>int\<close> is a 64-bit two's complement number: it is modelled as a HOL \<open>int\<close>,
  and \<open>i64\<close> writes out the wrap-around wherever a sum can leave the 64-bit range.
\<close>

type_synonym byte = char

definition i64 :: "int \<Rightarrow> int" where
  "i64 x = signed_take_bit 63 x"

text \<open>
  Run-time panics are results of the model. \<open>GrowSliceOutOfRange\<close> is the panic of
  \<^verbatim>\<open>append\<close> when the slice has no room left for the new elements and the run time
  has to allocate: in this program that only happens when the new length does not fit
  a 64-bit \<^verbatim>\<open>int\<close> (lemma \<open>Write_GrowSlice_only_overflow\<close> below).
\<close>

datatype fault =
  SliceBoundsOutOfRange | MakeSliceOutOfRange | GrowSliceOutOfRange | IndexOutOfRange

text \<open>The error values of package \<^verbatim>\<open>io\<close>, and any other error of a sink or source.\<close>

datatype io_error = EOF | ErrShortWrite | ErrOther nat

text \<open>
  A slice \<^verbatim>\<open>[]byte\<close> is a window on a backing array. Every slice the buffer stores
  starts at the first element of its allocation, so it is given by the array from
  there to its end (\<open>arr\<close>, whose length is \<^verbatim>\<open>cap(s)\<close>) and the length \<^verbatim>\<open>len(s)\<close>.
\<close>

record slice =
  arr :: "byte list"
  len :: nat

definition cap :: "slice \<Rightarrow> nat" where
  "cap s = length (arr s)"

text \<open>\<^verbatim>\<open>make([]byte, n, c)\<close>: zeroed storage; panics unless \<open>0 \<le> n \<le> c\<close>.\<close>

definition make_slice :: "int \<Rightarrow> int \<Rightarrow> fault + slice" where
  "make_slice n c =
     (if n < 0 \<or> c < n then Inl MakeSliceOutOfRange
      else Inr \<lparr>arr = replicate (nat c) (CHR 0x00), len = nat n\<rparr>)"

text \<open>\<^verbatim>\<open>s[:hi]\<close>: the same array with another length; panics unless \<open>0 \<le> hi \<le> cap(s)\<close>.\<close>

definition reslice_to :: "slice \<Rightarrow> int \<Rightarrow> fault + slice" where
  "reslice_to s hi =
     (if hi < 0 \<or> int (cap s) < hi then Inl SliceBoundsOutOfRange
      else Inr (s\<lparr>len := nat hi\<rparr>))"

text \<open>\<^verbatim>\<open>s[lo:]\<close>, read: the visible elements from \<open>lo\<close> on; panics unless \<open>0 \<le> lo \<le> len(s)\<close>.\<close>

definition slice_from :: "slice \<Rightarrow> int \<Rightarrow> fault + byte list" where
  "slice_from s lo =
     (if lo < 0 \<or> int (len s) < lo then Inl SliceBoundsOutOfRange
      else Inr (drop (nat lo) (take (len s) (arr s))))"

text \<open>
  \<^verbatim>\<open>copy(dst, src)\<close> overwrites the first \<open>min (len dst) (len src)\<close> elements of
  \<open>dst\<close>; the source is read as it was before the call (Go copies like memmove).
\<close>

definition copy_into :: "byte list \<Rightarrow> byte list \<Rightarrow> byte list" where
  "copy_into dst src = take (length dst) src @ drop (length src) dst"

definition slice_copy :: "slice \<Rightarrow> byte list \<Rightarrow> slice" where
  "slice_copy s src =
     s\<lparr>arr := copy_into (take (len s) (arr s)) src @ drop (len s) (arr s)\<rparr>"

text \<open>\<^verbatim>\<open>append(s, p...)\<close> where the capacity suffices writes in place.\<close>

definition append :: "slice \<Rightarrow> byte list \<Rightarrow> fault + slice" where
  "append s p =
     (if len s + length p \<le> cap s
      then Inr \<lparr>arr = take (len s) (arr s) @ p @ drop (len s + length p) (arr s),
                len = len s + length p\<rparr>
      else Inl GrowSliceOutOfRange)"

section \<open>buffer.go\<close>

record Buffer =
  buf :: slice
  r :: int

definition NewBuffer :: "int \<Rightarrow> Buffer" where
  "NewBuffer initialCap =
     (let initialCap = (if initialCap < 0 then 0 else initialCap)
      in \<lparr>buf = \<lparr>arr = replicate (nat initialCap) (CHR 0x00), len = 0\<rparr>, r = 0\<rparr>)"

definition Bytes :: "Buffer \<Rightarrow> fault + byte list" where
  "Bytes b = slice_from (buf b) (r b)"

definition UnsafeBytes :: "Buffer \<Rightarrow> byte list" where
  "UnsafeBytes b = take (len (buf b)) (arr (buf b))"

definition String :: "Buffer \<Rightarrow> fault + string" where
  "String b = Bytes b"

definition Len :: "Buffer \<Rightarrow> int" where
  "Len b = int (len (buf b)) - r b"

definition Cap :: "Buffer \<Rightarrow> nat" where
  "Cap b = cap (buf b)"

definition Reset :: "Buffer \<Rightarrow> Buffer" where
  "Reset b = b\<lparr>buf := (buf b)\<lparr>len := 0\<rparr>, r := 0\<rparr>"

definition nextPowerOfTwo :: "int \<Rightarrow> int" where
  "nextPowerOfTwo n0 =
     (if n0 \<le> 0 then 0
      else
        let n = i64 (n0 - 1);
            n = n OR drop_bit 1 n;
            n = n OR drop_bit 2 n;
            n = n OR drop_bit 4 n;
            n = n OR drop_bit 8 n;
            n = n OR drop_bit 16 n;
            n = n OR drop_bit 32 n
        in if n < 0 then 0 else i64 (n + 1))"

text \<open>
  \<^verbatim>\<open>grow\<close>: drain-collapse, fast path, compaction, reallocation, in the order of
  the source. \<^verbatim>\<open>unread+n\<close> is a 64-bit sum in both places.
\<close>

definition grow :: "Buffer \<Rightarrow> int \<Rightarrow> fault + Buffer" where
  "grow b0 n =
     (if n \<le> 0 then Inr b0
      else
        let b = (if r b0 \<ge> int (len (buf b0)) then Reset b0 else b0)
        in if int (cap (buf b)) - int (len (buf b)) \<ge> n then Inr b
           else if r b > 0 \<and> i64 (int (len (buf b)) - r b + n) \<le> int (cap (buf b)) then
             (let unread = int (len (buf b)) - r b
              in case reslice_to (buf b) unread of
                   Inl e \<Rightarrow> Inl e
                 | Inr dst \<Rightarrow>
                     (case slice_from (buf b) (r b) of
                        Inl e \<Rightarrow> Inl e
                      | Inr src \<Rightarrow> Inr (b\<lparr>buf := slice_copy dst src, r := 0\<rparr>)))
           else
             (let unread = i64 (int (len (buf b)) - r b);
                  required = i64 (unread + n);
                  newCap = nextPowerOfTwo required
              in case make_slice unread newCap of
                   Inl e \<Rightarrow> Inl e
                 | Inr newBuf \<Rightarrow>
                     (case slice_from (buf b) (r b) of
                        Inl e \<Rightarrow> Inl e
                      | Inr src \<Rightarrow> Inr (b\<lparr>buf := slice_copy newBuf src, r := 0\<rparr>))))"

definition Grow :: "Buffer \<Rightarrow> int \<Rightarrow> fault + Buffer" where
  "Grow b n = (if n > 0 then grow b n else Inr b)"

text \<open>
  \<^verbatim>\<open>Reserve\<close> returns the view \<^verbatim>\<open>b.buf[prev:]\<close> on the reserved region (here: what
  it shows at that moment) and \<^verbatim>\<open>nil\<close> for \<open>n \<le> 0\<close>.
\<close>

definition Reserve :: "Buffer \<Rightarrow> int \<Rightarrow> fault + (byte list \<times> Buffer)" where
  "Reserve b n =
     (if n \<le> 0 then Inr ([], b)
      else case grow b n of
             Inl e \<Rightarrow> Inl e
           | Inr b1 \<Rightarrow>
               (let prev = int (len (buf b1))
                in case reslice_to (buf b1) (i64 (prev + n)) of
                     Inl e \<Rightarrow> Inl e
                   | Inr s \<Rightarrow>
                       (case slice_from s prev of
                          Inl e \<Rightarrow> Inl e
                        | Inr view \<Rightarrow> Inr (view, b1\<lparr>buf := s\<rparr>))))"

definition Write :: "Buffer \<Rightarrow> byte list \<Rightarrow> fault + (int \<times> Buffer)" where
  "Write b0 p =
     (if length p = 0 then Inr (0, b0)
      else
        let b = (if r b0 \<ge> int (len (buf b0)) then Reset b0 else b0)
        in case grow b (int (length p)) of
             Inl e \<Rightarrow> Inl e
           | Inr b1 \<Rightarrow>
               (case append (buf b1) p of
                  Inl e \<Rightarrow> Inl e
                | Inr s \<Rightarrow> Inr (int (length p), b1\<lparr>buf := s\<rparr>)))"

definition WriteByte :: "Buffer \<Rightarrow> byte \<Rightarrow> fault + Buffer" where
  "WriteByte b0 v =
     (let b = (if r b0 \<ge> int (len (buf b0)) then Reset b0 else b0)
      in case grow b 1 of
           Inl e \<Rightarrow> Inl e
         | Inr b1 \<Rightarrow>
             (case append (buf b1) [v] of
                Inl e \<Rightarrow> Inl e
              | Inr s \<Rightarrow> Inr (b1\<lparr>buf := s\<rparr>)))"

definition WriteString :: "Buffer \<Rightarrow> string \<Rightarrow> fault + (int \<times> Buffer)" where
  "WriteString b0 s =
     (if length s = 0 then Inr (0, b0)
      else
        let b = (if r b0 \<ge> int (len (buf b0)) then Reset b0 else b0)
        in case grow b (int (length s)) of
             Inl e \<Rightarrow> Inl e
           | Inr b1 \<Rightarrow>
               (case append (buf b1) s of
                  Inl e \<Rightarrow> Inl e
                | Inr s' \<Rightarrow> Inr (int (length s), b1\<lparr>buf := s'\<rparr>)))"

text \<open>
  \<^verbatim>\<open>Read(p)\<close>: of the destination only its length \<open>k\<close> matters to the buffer. The
  result is the bytes copied to the front of \<open>p\<close> (their number is the \<open>n\<close> of the
  source), the error, and the buffer afterwards.
\<close>

definition Read :: "Buffer \<Rightarrow> nat \<Rightarrow> fault + ((byte list \<times> io_error option) \<times> Buffer)" where
  "Read b k =
     (if k = 0 then Inr (([], None), b)
      else if r b \<ge> int (len (buf b)) then Inr (([], Some EOF), Reset b)
      else case slice_from (buf b) (r b) of
             Inl e \<Rightarrow> Inl e
           | Inr src \<Rightarrow>
               (let got = take k src;
                    n = int (length got);
                    b1 = b\<lparr>r := i64 (r b + n)\<rparr>;
                    b2 = (if r b1 \<ge> int (len (buf b1)) then Reset b1 else b1)
                in Inr ((got, None), b2)))"

text \<open>
  An \<^verbatim>\<open>io.Writer\<close> is a state machine: from its state and the bytes offered it gives
  the count \<open>n\<close>, its error and its next state.
\<close>

type_synonym 'w writer = "'w \<Rightarrow> byte list \<Rightarrow> (int \<times> io_error option) \<times> 'w"

definition WriteTo ::
  "Buffer \<Rightarrow> 'w writer \<Rightarrow> 'w \<Rightarrow> fault + ((int \<times> io_error option) \<times> Buffer \<times> 'w)" where
  "WriteTo b w st =
     (if r b \<ge> int (len (buf b)) then Inr ((0, None), Reset b, st)
      else case Bytes b of
             Inl e \<Rightarrow> Inl e
           | Inr p \<Rightarrow>
               (let ((n, err), st') = w st p;
                    b2 = (if n > 0
                          then (let b1 = b\<lparr>r := i64 (r b + n)\<rparr>
                                in if r b1 \<ge> int (len (buf b1)) then Reset b1 else b1)
                          else b)
                in if err = None \<and> n \<noteq> int (length p)
                   then Inr ((n, Some ErrShortWrite), b2, st')
                   else Inr ((n, err), b2, st')))"

text \<open>
  An \<^verbatim>\<open>io.Reader\<close> is a state machine as well: from its state and the length of the
  slice offered it gives the bytes it stored at the front of that slice (their number
  is its \<open>n\<close>), its error and its next state. The loop of \<^verbatim>\<open>ReadFrom\<close> ends only
  when the source reports an error, so it takes fuel: \<open>None\<close> is a loop that is still
  running when the fuel is used up.
\<close>

type_synonym 'rd reader = "'rd \<Rightarrow> nat \<Rightarrow> (byte list \<times> io_error option) \<times> 'rd"

definition minRead :: int where
  "minRead = 512"

fun ReadFrom_loop ::
  "nat \<Rightarrow> 'rd reader \<Rightarrow> 'rd \<Rightarrow> Buffer \<Rightarrow> int \<Rightarrow>
   (fault + ((int \<times> io_error option) \<times> Buffer \<times> 'rd)) option" where
  "ReadFrom_loop 0 rd st b tot = None"
| "ReadFrom_loop (Suc fuel) rd st b tot =
     (case (if len (buf b) = cap (buf b) then grow b minRead else Inr b) of
        Inl e \<Rightarrow> Some (Inl e)
      | Inr b1 \<Rightarrow>
          (let start = len (buf b1);
               full = (buf b1)\<lparr>len := cap (buf b1)\<rparr>;
               ((data, err), st') = rd st (cap (buf b1) - start);
               n = int (length data);
               filled = full\<lparr>arr := take start (arr full) @ copy_into (drop start (arr full)) data\<rparr>
           in case (if n > 0 then reslice_to filled (i64 (int start + n))
                    else reslice_to filled (int start)) of
                Inl e \<Rightarrow> Some (Inl e)
              | Inr s \<Rightarrow>
                  (let b2 = b1\<lparr>buf := s\<rparr>;
                       tot' = (if n > 0 then i64 (tot + n) else tot)
                   in case err of
                        Some e \<Rightarrow>
                          Some (Inr ((tot', if e = EOF then None else Some e), b2, st'))
                      | None \<Rightarrow> ReadFrom_loop fuel rd st' b2 tot')))"

definition ReadFrom ::
  "nat \<Rightarrow> Buffer \<Rightarrow> 'rd reader \<Rightarrow> 'rd \<Rightarrow>
   (fault + ((int \<times> io_error option) \<times> Buffer \<times> 'rd)) option" where
  "ReadFrom fuel b0 rd st =
     (let b = (if r b0 \<ge> int (len (buf b0)) then Reset b0 else b0)
      in ReadFrom_loop fuel rd st b 0)"

subsection \<open>Sequences of public operations\<close>

text \<open>
  One constructor for each mutating public operation of \<^verbatim>\<open>Buffer\<close>, with its
  arguments; \<open>apply_op\<close> keeps the buffer and drops the values returned.
\<close>

datatype ('w, 'rd) buffer_op =
    OpWrite "byte list"
  | OpWriteByte byte
  | OpWriteString string
  | OpRead nat
  | OpWriteTo "'w writer" 'w
  | OpReadFrom nat "'rd reader" 'rd
  | OpReserve int
  | OpGrow int
  | OpReset

fun apply_op :: "Buffer \<Rightarrow> ('w, 'rd) buffer_op \<Rightarrow> (fault + Buffer) option" where
  "apply_op b (OpWrite p) = Some (map_sum id snd (Write b p))"
| "apply_op b (OpWriteByte v) = Some (WriteByte b v)"
| "apply_op b (OpWriteString s) = Some (map_sum id snd (WriteString b s))"
| "apply_op b (OpRead k) = Some (map_sum id snd (Read b k))"
| "apply_op b (OpWriteTo w st) = Some (map_sum id (\<lambda>(res, b', st'). b') (WriteTo b w st))"
| "apply_op b (OpReadFrom fuel rd st) =
     map_option (map_sum id (\<lambda>(res, b', st'). b')) (ReadFrom fuel b rd st)"
| "apply_op b (OpReserve n) = Some (map_sum id snd (Reserve b n))"
| "apply_op b (OpGrow n) = Some (Grow b n)"
| "apply_op b OpReset = Some (Inr (Reset b))"

fun run_ops :: "Buffer \<Rightarrow> ('w, 'rd) buffer_op list \<Rightarrow> (fault + Buffer) option" where
  "run_ops b [] = Some (Inr b)"
| "run_ops b (x # xs) =
     (case apply_op b x of
        None \<Rightarrow> None
      | Some (Inl e) \<Rightarrow> Some (Inl e)
      | Some (Inr b') \<Rightarrow> run_ops b' xs)"

text \<open>
  The contract of \<^verbatim>\<open>io.Writer\<close>: \<^verbatim>\<open>Write\<close> returns \<open>n\<close> with \<open>0 \<le> n \<le> len(p)\<close>.
  Only the upper bound is needed below.
\<close>

definition writer_ok :: "'w writer \<Rightarrow> bool" where
  "writer_ok w \<longleftrightarrow> (\<forall>st p. fst (fst (w st p)) \<le> int (length p))"

text \<open>The contract of \<^verbatim>\<open>io.Reader\<close>: \<^verbatim>\<open>Read\<close> stores \<open>n\<close> bytes with \<open>0 \<le> n \<le> len(p)\<close>.\<close>

definition reader_ok :: "'rd reader \<Rightarrow> bool" where
  "reader_ok rd \<longleftrightarrow> (\<forall>st k. length (fst (fst (rd st k))) \<le> k)"

text \<open>An \<^verbatim>\<open>int\<close> argument is a 64-bit number.\<close>

definition is_int64 :: "int \<Rightarrow> bool" where
  "is_int64 n \<longleftrightarrow> - (2 ^ 63) \<le> n \<and> n < 2 ^ 63"

fun op_ok :: "('w, 'rd) buffer_op \<Rightarrow> bool" where
  "op_ok (OpWriteTo w st) = writer_ok w"
| "op_ok (OpReadFrom fuel rd st) = reader_ok rd"
| "op_ok (OpReserve n) = is_int64 n"
| "op_ok (OpGrow n) = is_int64 n"
| "op_ok _ = True"

text \<open>
  Sequences of writes and of reads, for the round trip. A write is one call of
  \<^verbatim>\<open>Write\<close>, \<^verbatim>\<open>WriteByte\<close> or \<^verbatim>\<open>WriteString\<close>; \<open>written\<close> is what it appends. Both
  runs add up the counts the calls return (\<^verbatim>\<open>WriteByte\<close> returns no count: it
  appends one byte).
\<close>

datatype write_call = CallWrite "byte list" | CallWriteByte byte | CallWriteString string

fun written :: "write_call \<Rightarrow> byte list" where
  "written (CallWrite p) = p"
| "written (CallWriteByte v) = [v]"
| "written (CallWriteString s) = s"

fun do_write :: "Buffer \<Rightarrow> write_call \<Rightarrow> fault + (int \<times> Buffer)" where
  "do_write b (CallWrite p) = Write b p"
| "do_write b (CallWriteByte v) = map_sum id (\<lambda>b'. (1, b')) (WriteByte b v)"
| "do_write b (CallWriteString s) = WriteString b s"

fun write_all :: "Buffer \<Rightarrow> write_call list \<Rightarrow> fault + (int \<times> Buffer)" where
  "write_all b [] = Inr (0, b)"
| "write_all b (c # cs) =
     (case do_write b c of
        Inl e \<Rightarrow> Inl e
      | Inr (n, b1) \<Rightarrow>
          (case write_all b1 cs of
             Inl e \<Rightarrow> Inl e
           | Inr (m, b2) \<Rightarrow> Inr (n + m, b2)))"

fun read_all :: "Buffer \<Rightarrow> nat list \<Rightarrow> fault + (byte list \<times> int \<times> Buffer)" where
  "read_all b [] = Inr ([], 0, b)"
| "read_all b (k # ks) =
     (case Read b k of
        Inl e \<Rightarrow> Inl e
      | Inr ((got, err), b1) \<Rightarrow>
          (case read_all b1 ks of
             Inl e \<Rightarrow> Inl e
           | Inr (rest, m, b2) \<Rightarrow> Inr (got @ rest, int (length got) + m, b2)))"

subsection \<open>The state invariant\<close>

text \<open>
  \<open>0 \<le> r \<le> len(buf) \<le> cap(buf)\<close>, and the capacity is a Go \<^verbatim>\<open>int\<close>.
\<close>

definition binv :: "Buffer \<Rightarrow> bool" where
  "binv b \<longleftrightarrow>
     0 \<le> r b \<and> r b \<le> int (len (buf b)) \<and> len (buf b) \<le> cap (buf b) \<and>
     int (cap (buf b)) < 2 ^ 63"

text \<open>The Drained state is not observable: the cursor meets the length only at zero.\<close>

definition undrained :: "Buffer \<Rightarrow> bool" where
  "undrained b \<longleftrightarrow> r b < int (len (buf b)) \<or> (r b = 0 \<and> len (buf b) = 0)"

text \<open>\<open>c\<close> is the least power of two that is at least \<open>x\<close>.\<close>

definition is_least_pow2_ge :: "int \<Rightarrow> int \<Rightarrow> bool" where
  "is_least_pow2_ge c x \<longleftrightarrow>
     (\<exists>k::nat. c = 2 ^ k) \<and> x \<le> c \<and> (\<forall>j::nat. x \<le> 2 ^ j \<longrightarrow> c \<le> 2 ^ j)"

section \<open>pool.go\<close>

text \<open>
  The pool is modelled as one thread sees it: atomic counters are plain fields, and
  operations run one after the other. A \<^verbatim>\<open>sync.Pool\<close> is the list of the buffers it
  holds. Its \<^verbatim>\<open>Get\<close> may hand out any of them or none (it then calls \<^verbatim>\<open>New\<close>): the
  choice is the argument \<open>pick\<close>, the position of the buffer taken, \<open>None\<close> for a miss.
  Finalizers (\<^verbatim>\<open>runtime.SetFinalizer\<close>) hang on the identity of a buffer and run in
  the garbage collector; they change no field modelled here but \<open>leaks\<close> and are left
  out. \<^verbatim>\<open>float64\<close> values are modelled by the reals they denote, without rounding;
  they only occur in \<open>recalibratePercentile\<close>, past the threshold test.
\<close>

record Stats =
  Gets :: int
  Puts :: int
  Allocs :: int
  Calibrations :: int
  LeakCount :: int
  DefaultCap :: int
  StatsSmallLimit :: int

record PoolOptions =
  BucketSizes :: "int list"
  InitialCap :: int
  DebugLeakDetection :: bool
  ObserveEvery :: int
  SmallLimit :: int
  Percentile :: real
  CalibrateThreshold :: int
  Metrics :: bool

text \<open>
  \<open>metrics\<close> tells whether a callback is configured; \<open>metricsCalls\<close> lists the
  snapshots it has been called with, the latest last.
\<close>

record BufferPool =
  sizes :: "int list"
  buckets :: "Buffer list list"
  smallPool :: "Buffer list"
  defaultCap :: int
  observeEvery :: int
  observed :: int
  bucketHits :: "int list"
  percentile :: real
  calibrateThr :: int
  smallLimit :: int
  debugLeaks :: bool
  leaks :: int
  gets :: int
  puts :: int
  allocs :: int
  calibrations :: int
  metrics :: bool
  metricsCalls :: "Stats list"

definition defaultBucketSizes :: "int list" where
  "defaultBucketSizes = [64, 128, 256, 512, 1024, 2048, 4096, 8192, 16384, 32768, 65536]"

definition defaultPercentile :: real where
  "defaultPercentile = 95 / 100"

definition defaultCalibrateThreshold :: int where
  "defaultCalibrateThreshold = 42000"

definition minInt :: "int \<Rightarrow> int \<Rightarrow> int" where
  "minInt a b = (if a < b then a else b)"

text \<open>The loop of \<^verbatim>\<open>normalizeSizes\<close> that drops repeated neighbours.\<close>

fun uniq_loop :: "int list \<Rightarrow> int list \<Rightarrow> int list" where
  "uniq_loop uniq [] = uniq"
| "uniq_loop uniq (x # xs) =
     (if x \<noteq> last uniq then uniq_loop (uniq @ [x]) xs else uniq_loop uniq xs)"

definition normalizeSizes :: "int list \<Rightarrow> int list" where
  "normalizeSizes s =
     (let filtered = filter (\<lambda>v. v > 0) s
      in if length filtered = 0 then filtered
         else (let sorted_ints = sort filtered
               in uniq_loop (take 1 sorted_ints) (drop 1 sorted_ints)))"

fun chooseCap_loop :: "int list \<Rightarrow> int \<Rightarrow> int option" where
  "chooseCap_loop [] target = None"
| "chooseCap_loop (s # ss) target = (if target \<le> s then Some s else chooseCap_loop ss target)"

text \<open>\<^verbatim>\<open>sizes[0]\<close> and \<^verbatim>\<open>sizes[len(sizes)-1]\<close> panic on an empty table.\<close>

definition chooseCap :: "int list \<Rightarrow> int \<Rightarrow> fault + int" where
  "chooseCap szs target =
     (if szs = [] then Inl IndexOutOfRange
      else if target \<le> 0 then Inr (szs ! 0)
      else case chooseCap_loop szs target of
             Some s \<Rightarrow> Inr s
           | None \<Rightarrow> Inr (szs ! (length szs - 1)))"

fun bucketIndex_loop :: "int list \<Rightarrow> int \<Rightarrow> int \<Rightarrow> int option" where
  "bucketIndex_loop [] sz i = None"
| "bucketIndex_loop (s # ss) sz i =
     (if sz \<le> s then Some i else bucketIndex_loop ss sz (i + 1))"

definition bucketIndex :: "BufferPool \<Rightarrow> int \<Rightarrow> int" where
  "bucketIndex p sz =
     (if sz \<le> 0 then 0
      else case bucketIndex_loop (sizes p) sz 0 of
             Some i \<Rightarrow> i
           | None \<Rightarrow> int (length (sizes p)) - 1)"

definition NewBufferPoolWithOptions :: "PoolOptions \<Rightarrow> fault + BufferPool" where
  "NewBufferPoolWithOptions opts =
     (let szs = normalizeSizes (BucketSizes opts);
          szs = (if length szs = 0 then defaultBucketSizes else szs)
      in case chooseCap szs (InitialCap opts) of
           Inl e \<Rightarrow> Inl e
         | Inr dc \<Rightarrow>
             Inr \<lparr>sizes = szs,
                  buckets = replicate (length szs) [],
                  smallPool = [],
                  defaultCap = dc,
                  observeEvery = (if ObserveEvery opts > 0 then ObserveEvery opts else 4096),
                  observed = 0,
                  bucketHits = replicate (length szs) 0,
                  percentile =
                    (if Percentile opts > 0 \<and> Percentile opts \<le> 1 then Percentile opts
                     else defaultPercentile),
                  calibrateThr =
                    (if CalibrateThreshold opts > 0 then CalibrateThreshold opts
                     else defaultCalibrateThreshold),
                  smallLimit =
                    (if SmallLimit opts > 0 then SmallLimit opts else minInt 256 (szs ! 0)),
                  debugLeaks = DebugLeakDetection opts,
                  leaks = 0, gets = 0, puts = 0, allocs = 0, calibrations = 0,
                  metrics = Metrics opts,
                  metricsCalls = []\<rparr>)"

definition NewBufferPool :: "int \<Rightarrow> fault + BufferPool" where
  "NewBufferPool initialCap =
     NewBufferPoolWithOptions
       \<lparr>BucketSizes = [], InitialCap = initialCap, DebugLeakDetection = False,
        ObserveEvery = 0, SmallLimit = 0, Percentile = 0, CalibrateThreshold = 0,
        Metrics = False\<rparr>"

definition Stats :: "BufferPool \<Rightarrow> Stats" where
  "Stats p =
     \<lparr>Gets = gets p, Puts = puts p, Allocs = allocs p, Calibrations = calibrations p,
      LeakCount = leaks p, DefaultCap = defaultCap p, StatsSmallLimit = smallLimit p\<rparr>"

definition LeakCount_of :: "BufferPool \<Rightarrow> int" where
  "LeakCount_of p = leaks p"

text \<open>\<^verbatim>\<open>if p.metrics != nil { p.metrics(p.Stats()) }\<close>\<close>

definition call_metrics :: "BufferPool \<Rightarrow> BufferPool" where
  "call_metrics p = (if metrics p then p\<lparr>metricsCalls := metricsCalls p @ [Stats p]\<rparr> else p)"

text \<open>\<^verbatim>\<open>sync.Pool.Get\<close> without its \<^verbatim>\<open>New\<close>: the buffer taken, if any, and the rest.\<close>

definition pool_Get :: "Buffer list \<Rightarrow> nat option \<Rightarrow> Buffer option \<times> Buffer list" where
  "pool_Get items pick =
     (case pick of
        None \<Rightarrow> (None, items)
      | Some i \<Rightarrow>
          if i < length items then (Some (items ! i), take i items @ drop (Suc i) items)
          else (None, items))"

definition pool_Put :: "Buffer list \<Rightarrow> Buffer \<Rightarrow> Buffer list" where
  "pool_Put items b = items @ [b]"

definition getSized :: "BufferPool \<Rightarrow> nat option \<Rightarrow> int \<Rightarrow> fault + (Buffer \<times> BufferPool)" where
  "getSized p pick n0 =
     (let n = (if n0 < 0 then 0 else n0)
      in if n \<le> smallLimit p then
           (let (got, rest) = pool_Get (smallPool p) pick;
                (b, p1) = (case got of
                             Some b \<Rightarrow> (b, p\<lparr>smallPool := rest\<rparr>)
                           | None \<Rightarrow> (NewBuffer (smallLimit p), p\<lparr>allocs := i64 (allocs p + 1)\<rparr>))
            in case (if n > int (cap (buf b)) then grow b (i64 (n - int (len (buf b))))
                     else Inr b) of
                 Inl e \<Rightarrow> Inl e
               | Inr b' \<Rightarrow> Inr (b', p1))
         else
           (let idx = bucketIndex p n
            in if idx < 0 \<or> idx \<ge> int (length (buckets p)) then Inl IndexOutOfRange
               else
                 (let (got, rest) = pool_Get (buckets p ! nat idx) pick
                  in case (case got of
                             Some b \<Rightarrow> Inr (b, p\<lparr>buckets := (buckets p)[nat idx := rest]\<rparr>)
                           | None \<Rightarrow>
                               if idx \<ge> int (length (sizes p)) then Inl IndexOutOfRange
                               else Inr (NewBuffer (sizes p ! nat idx),
                                         p\<lparr>allocs := i64 (allocs p + 1)\<rparr>)) of
                       Inl e \<Rightarrow> Inl e
                     | Inr (b, p1) \<Rightarrow>
                         (case (if n > int (cap (buf b))
                                then grow b (i64 (n - int (len (buf b)))) else Inr b) of
                            Inl e \<Rightarrow> Inl e
                          | Inr b' \<Rightarrow> Inr (b', p1)))))"

definition Get :: "BufferPool \<Rightarrow> nat option \<Rightarrow> fault + (Buffer \<times> BufferPool)" where
  "Get p pick = getSized (p\<lparr>gets := i64 (gets p + 1)\<rparr>) pick (defaultCap p)"

definition GetSized :: "BufferPool \<Rightarrow> nat option \<Rightarrow> int \<Rightarrow> fault + (Buffer \<times> BufferPool)" where
  "GetSized p pick n = getSized (p\<lparr>gets := i64 (gets p + 1)\<rparr>) pick n"

definition Calibrate :: "BufferPool \<Rightarrow> int \<Rightarrow> fault + BufferPool" where
  "Calibrate p obs =
     (if obs \<le> 0 then Inr p
      else case chooseCap (sizes p) obs of
             Inl e \<Rightarrow> Inl e
           | Inr c \<Rightarrow>
               Inr (call_metrics (p\<lparr>defaultCap := c, calibrations := i64 (calibrations p + 1)\<rparr>)))"

text \<open>Go's \<^verbatim>\<open>%\<close> truncates towards zero: the remainder has the sign of the dividend.\<close>

definition go_rem :: "int \<Rightarrow> int \<Rightarrow> int" where
  "go_rem a b = sgn a * (\<bar>a\<bar> mod \<bar>b\<bar>)"

text \<open>The first loop of \<^verbatim>\<open>recalibratePercentile\<close>: the sum of the counts, in 64 bits.\<close>

fun sum_counts :: "int list \<Rightarrow> int \<Rightarrow> int" where
  "sum_counts [] tot = tot"
| "sum_counts (c # cs) tot = sum_counts cs (i64 (tot + c))"

text \<open>Its second loop: the index of the first class whose cumulative count reaches the target.\<close>

fun percentile_loop :: "int list \<Rightarrow> int \<Rightarrow> int \<Rightarrow> nat \<Rightarrow> nat option" where
  "percentile_loop [] target cumulative i = None"
| "percentile_loop (c # cs) target cumulative i =
     (let cumulative = i64 (cumulative + c)
      in if cumulative \<ge> target then Some i else percentile_loop cs target cumulative (Suc i))"

text \<open>\<^verbatim>\<open>int64(x)\<close> of a non-integral value truncates towards zero.\<close>

definition trunc_real :: "real \<Rightarrow> int" where
  "trunc_real x = (if x \<ge> 0 then \<lfloor>x\<rfloor> else \<lceil>x\<rceil>)"

definition recalibratePercentile :: "BufferPool \<Rightarrow> fault + BufferPool" where
  "recalibratePercentile p0 =
     (let counts = bucketHits p0;
          p = p0\<lparr>bucketHits := replicate (length (bucketHits p0)) 0\<rparr>;
          tot = sum_counts counts 0
      in if tot \<le> 0 \<or> tot < calibrateThr p then Inr p
         else
           (let target = trunc_real (real_of_int tot * percentile p);
                target = (if target \<le> 0 then tot else target)
            in case percentile_loop counts target 0 0 of
                 None \<Rightarrow> Inr p
               | Some i \<Rightarrow>
                   if i \<ge> length (sizes p) then Inl IndexOutOfRange
                   else Inr (call_metrics
                               (p\<lparr>defaultCap := sizes p ! i,
                                  calibrations := i64 (calibrations p + 1)\<rparr>))))"

definition observeSize :: "BufferPool \<Rightarrow> int \<Rightarrow> int \<Rightarrow> fault + BufferPool" where
  "observeSize p sz bucketIdx =
     (if sz \<le> 0 \<or> observeEvery p \<le> 0 then Inr p
      else if bucketIdx < 0 \<or> bucketIdx \<ge> int (length (bucketHits p)) then Inl IndexOutOfRange
      else
        (let p1 = p\<lparr>bucketHits :=
                      (bucketHits p)[nat bucketIdx := i64 (bucketHits p ! nat bucketIdx + 1)]\<rparr>;
             tot = i64 (observed p1 + 1);
             p2 = p1\<lparr>observed := tot\<rparr>
         in if go_rem tot (observeEvery p2) \<noteq> 0 then Inr p2
            else recalibratePercentile p2))"

text \<open>\<^verbatim>\<open>Put(b)\<close>: \<open>None\<close> is the nil pointer.\<close>

definition Put :: "BufferPool \<Rightarrow> Buffer option \<Rightarrow> fault + BufferPool" where
  "Put p0 bo =
     (case bo of
        None \<Rightarrow> Inr p0
      | Some b0 \<Rightarrow>
          (let p = p0\<lparr>puts := i64 (puts p0 + 1)\<rparr>;
               b = Reset b0
           in if int (cap (buf b)) \<le> smallLimit p then
                (let idx = bucketIndex p (int (cap (buf b)))
                 in case observeSize p (int (cap (buf b))) idx of
                      Inl e \<Rightarrow> Inl e
                    | Inr p1 \<Rightarrow> Inr (p1\<lparr>smallPool := pool_Put (smallPool p1) b\<rparr>))
              else
                (let idx = bucketIndex p (int (cap (buf b)))
                 in case observeSize p (int (cap (buf b))) idx of
                      Inl e \<Rightarrow> Inl e
                    | Inr p1 \<Rightarrow>
                        if idx < 0 \<or> idx \<ge> int (length (buckets p1)) then Inl IndexOutOfRange
                        else Inr (p1\<lparr>buckets :=
                                       (buckets p1)[nat idx :=
                                          pool_Put (buckets p1 ! nat idx) b]\<rparr>))))"

text \<open>
  \<^verbatim>\<open>Borrow\<close> returns the buffer and a release function; called later, the function
  puts back the buffer as it is then, so it takes that buffer as its argument here.
\<close>

definition Borrow ::
  "BufferPool \<Rightarrow> nat option \<Rightarrow> int \<Rightarrow>
   fault + ((Buffer \<times> (Buffer \<Rightarrow> BufferPool \<Rightarrow> fault + BufferPool)) \<times> BufferPool)" where
  "Borrow p pick n =
     (case getSized (p\<lparr>gets := i64 (gets p + 1)\<rparr>) pick n of
        Inl e \<Rightarrow> Inl e
      | Inr (b, p1) \<Rightarrow> Inr ((b, \<lambda>b' p'. Put p' (Some b')), p1))"

subsection \<open>Sequences of pool operations\<close>

text \<open>
  What callers do to a pool, one after the other. A buffer handed out belongs to its
  caller until it is put back, so \<open>PPut\<close> carries the buffer in the state in which the
  caller returns it, whatever was done to it meanwhile.
\<close>

datatype pool_op =
    PGet "nat option"
  | PGetSized "nat option" int
  | PBorrow "nat option" int
  | PPut "Buffer option"
  | PCalibrate int

fun apply_pool_op :: "BufferPool \<Rightarrow> pool_op \<Rightarrow> fault + BufferPool" where
  "apply_pool_op p (PGet pick) = map_sum id snd (Get p pick)"
| "apply_pool_op p (PGetSized pick n) = map_sum id snd (GetSized p pick n)"
| "apply_pool_op p (PBorrow pick n) = map_sum id snd (Borrow p pick n)"
| "apply_pool_op p (PPut bo) = Put p bo"
| "apply_pool_op p (PCalibrate n) = Calibrate p n"

fun run_pool :: "BufferPool \<Rightarrow> pool_op list \<Rightarrow> fault + BufferPool" where
  "run_pool p [] = Inr p"
| "run_pool p (x # xs) =
     (case apply_pool_op p x of
        Inl e \<Rightarrow> Inl e
      | Inr p' \<Rightarrow> run_pool p' xs)"

text \<open>A pool state is reachable when a constructor and a sequence of operations give it.\<close>

definition reachable :: "PoolOptions \<Rightarrow> pool_op list \<Rightarrow> BufferPool \<Rightarrow> bool" where
  "reachable opts ops p \<longleftrightarrow>
     (case NewBufferPoolWithOptions opts of
        Inl e \<Rightarrow> False
      | Inr p0 \<Rightarrow> run_pool p0 ops = Inr p)"

section \<open>Sinks and sources\<close>

text \<open>
  \<^verbatim>\<open>shortWriter\<close> of \<^verbatim>\<open>buffer_edge_test.go\<close> passes at most \<open>limit\<close> bytes of each
  write on to a \<^verbatim>\<open>bytes.Buffer\<close>, which takes them all; its state is what that buffer
  has received. \<^verbatim>\<open>strings.NewReader(s)\<close> hands out \<open>s\<close> piece by piece and then
  reports \<^verbatim>\<open>io.EOF\<close>; its state is what is left of \<open>s\<close>.
\<close>

definition shortWriter :: "nat \<Rightarrow> string writer" where
  "shortWriter limit st p =
     (let p' = (if length p > limit then take limit p else p)
      in ((int (length p'), None), st @ p'))"

text \<open>
  A sink that breaks the contract of \<^verbatim>\<open>io.Writer\<close>: whatever it is offered, it reports
  \<^verbatim>\<open>math.MaxInt64\<close> bytes written and no error.
\<close>

definition overclaimingWriter :: "unit writer" where
  "overclaimingWriter st p = ((9223372036854775807, None), st)"

definition stringsReader :: "string reader" where
  "stringsReader st k =
     (if st = [] then (([], Some EOF), []) else ((take k st, None), drop k st))"

subsection \<open>The pool of the calibration test\<close>

text \<open>
  \<^verbatim>\<open>TestBufferPoolCalibrate\<close> builds a pool with the class table \<open>{16, 32, 64}\<close> and
  nothing else set: \<open>table_opts\<close> are its options and \<open>table_pool\<close> is the pool the
  constructor returns for them (lemma \<open>table_pool_constructed\<close>). \<open>grown_buffer\<close>
  is an empty buffer of capacity 128.
\<close>

definition table_opts :: PoolOptions where
  "table_opts =
     \<lparr>BucketSizes = [16, 32, 64], InitialCap = 0, DebugLeakDetection = False,
      ObserveEvery = 0, SmallLimit = 0, Percentile = 0, CalibrateThreshold = 0,
      Metrics = False\<rparr>"

definition table_pool :: BufferPool where
  "table_pool =
     \<lparr>sizes = [16, 32, 64], buckets = [[], [], []], smallPool = [], defaultCap = 16,
      observeEvery = 4096, observed = 0, bucketHits = [0, 0, 0],
      percentile = defaultPercentile, calibrateThr = 42000, smallLimit = 16,
      debugLeaks = False, leaks = 0, gets = 0, puts = 0, allocs = 0, calibrations = 0,
      metrics = False, metricsCalls = []\<rparr>"

definition grown_buffer :: Buffer where
  "grown_buffer = \<lparr>buf = \<lparr>arr = replicate 128 (CHR 0x00), len = 0\<rparr>, r = 0\<rparr>"

text \<open>Invariants of the pool.\<close>

definition pool_wf :: "BufferPool \<Rightarrow> bool" where
  "pool_wf p \<longleftrightarrow>
     sizes p \<noteq> [] \<and> sorted (sizes p) \<and> 0 < smallLimit p \<and> 0 < observeEvery p \<and>
     length (buckets p) = length (sizes p) \<and> length (bucketHits p) = length (sizes p)"

definition is_reset :: "Buffer \<Rightarrow> bool" where
  "is_reset b \<longleftrightarrow> len (buf b) = 0 \<and> r b = 0"

definition stored_reset :: "BufferPool \<Rightarrow> bool" where
  "stored_reset p \<longleftrightarrow>
     list_all is_reset (smallPool p) \<and> list_all (list_all is_reset) (buckets p)"

text \<open>
  The buffers held for class \<open>i\<close>, any class but the last, have capacity at most
  \<open>sizes[i]\<close>.
\<close>

definition classified :: "BufferPool \<Rightarrow> bool" where
  "classified p \<longleftrightarrow>
     (\<forall>i. Suc i < length (sizes p) \<longrightarrow>
        i < length (buckets p) \<longrightarrow>
        list_all (\<lambda>b. int (Cap b) \<le> sizes p ! i) (buckets p ! i))"

section \<open>Vocabulary of the proofs\<close>

text \<open>The unread bytes of a buffer: what \<^verbatim>\<open>Bytes()\<close> shows when the invariant holds.\<close>

definition unread :: "Buffer \<Rightarrow> byte list" where
  "unread b = drop (nat (r b)) (take (len (buf b)) (arr (buf b)))"

text \<open>The six shift-and-or steps of \<^verbatim>\<open>nextPowerOfTwo\<close>.\<close>

definition smear :: "int \<Rightarrow> int" where
  "smear m = (let n = m;
            n = n OR drop_bit 1 n;
            n = n OR drop_bit 2 n;
            n = n OR drop_bit 4 n;
            n = n OR drop_bit 8 n;
            n = n OR drop_bit 16 n;
            n = n OR drop_bit 32 n in n)"


section \<open>Lemmas on \<^verbatim>\<open>buffer.go\<close>\<close>

lemma i64_id: "- 9223372036854775808 \<le> x \<Longrightarrow> x < 9223372036854775808 \<Longrightarrow> i64 x = x"
  by (simp add: i64_def signed_take_bit_int_eq_self)

lemma i64_lower: "- 9223372036854775808 \<le> i64 x"
  using signed_take_bit_int_greater_eq_minus_exp[of 63 x] by (simp add: i64_def)

lemma i64_upper: "i64 x < 9223372036854775808"
  using signed_take_bit_int_less_exp[of 63 x] by (simp add: i64_def)

lemma nextPowerOfTwo_upper: "nextPowerOfTwo n < 9223372036854775808"
  using i64_upper by (simp add: nextPowerOfTwo_def Let_def)

lemma binv_Bytes: "binv b \<Longrightarrow> Bytes b = Inr (unread b)"
  by (simp add: binv_def Bytes_def slice_from_def unread_def)

lemma length_unread: "binv b \<Longrightarrow> int (length (unread b)) = Len b"
  by (auto simp: binv_def unread_def Len_def cap_def)

lemma i64_unread: "binv b \<Longrightarrow> i64 (int (len (buf b)) - r b) = int (len (buf b)) - r b"
  by (rule i64_id) (auto simp: binv_def)

lemma binv_Reset: "binv b \<Longrightarrow> binv (Reset b)"
  by (simp add: binv_def Reset_def cap_def)

lemma binv_NewBuffer: "c < 9223372036854775808 \<Longrightarrow> binv (NewBuffer c)"
  by (simp add: binv_def NewBuffer_def cap_def Let_def)

lemma slice_copy_full:
  "length src = len s \<Longrightarrow> len s \<le> length (arr s) \<Longrightarrow>
   slice_copy s src = s\<lparr>arr := src @ drop (len s) (arr s)\<rparr>"
  by (simp add: slice_copy_def copy_into_def)

lemma grow_binv: "binv b \<Longrightarrow> grow b n = Inr b' \<Longrightarrow> binv b'"
  using nextPowerOfTwo_upper[of "i64 (int (len (buf b)) - r b + n)"]
        nextPowerOfTwo_upper[of "i64 n"]
  by (auto simp: grow_def Let_def i64_unread i64_id binv_Reset Reset_def
        binv_def cap_def reslice_to_def slice_from_def
      make_slice_def slice_copy_def copy_into_def split: if_splits sum.splits)


lemma unread_Reset [simp]: "unread (Reset b) = []"
  by (simp add: unread_def Reset_def)

lemma unread_drained: "binv b \<Longrightarrow> r b \<ge> int (len (buf b)) \<Longrightarrow> unread b = []"
  by (simp add: unread_def binv_def)

lemma grow_unread: "binv b \<Longrightarrow> grow b n = Inr b' \<Longrightarrow> unread b' = unread b"
  by (auto simp: grow_def Let_def i64_unread i64_id binv_Reset Reset_def unread_def
        binv_def cap_def reslice_to_def slice_from_def
      make_slice_def slice_copy_def copy_into_def split: if_splits sum.splits)

lemma grow_undrained: "binv b \<Longrightarrow> 0 < n \<Longrightarrow> grow b n = Inr b' \<Longrightarrow> undrained b'"
  by (auto simp: grow_def Let_def i64_unread i64_id binv_Reset Reset_def undrained_def
        binv_def cap_def reslice_to_def slice_from_def
      make_slice_def slice_copy_def copy_into_def split: if_splits sum.splits)

lemma grow_undrained': "binv b \<Longrightarrow> undrained b \<Longrightarrow> grow b n = Inr b' \<Longrightarrow> undrained b'"
  by (cases "0 < n") (auto simp: grow_undrained, simp add: grow_def)

lemma grow_Cap_fits:
  "binv b \<Longrightarrow> Len b + n \<le> int (Cap b) \<Longrightarrow> grow b n = Inr b' \<Longrightarrow> Cap b' = Cap b"
  by (auto simp: grow_def Let_def i64_unread i64_id binv_Reset Reset_def Len_def Cap_def
        binv_def cap_def reslice_to_def slice_from_def
      make_slice_def slice_copy_def copy_into_def split: if_splits sum.splits)

lemma grow_fits_total:
  "binv b \<Longrightarrow> Len b + n \<le> int (Cap b) \<Longrightarrow> \<exists>b'. grow b n = Inr b'"
  by (auto simp: grow_def Let_def i64_unread i64_id binv_Reset Reset_def Len_def Cap_def
        binv_def cap_def reslice_to_def slice_from_def
      make_slice_def slice_copy_def copy_into_def split: if_splits sum.splits)

lemma smear_step:
  fixes x m :: int
  assumes "\<And>i. bit x i = (\<exists>d<w. bit m (i + d))"
  shows "bit (x OR drop_bit w x) i = (\<exists>d<2 * w. bit m (i + d))"
proof
  assume "bit (x OR drop_bit w x) i"
  then consider "bit x i" | "bit x (w + i)"
    by (auto simp: bit_or_iff bit_drop_bit_eq)
  then show "\<exists>d<2 * w. bit m (i + d)"
  proof cases
    case 1
    then obtain d where "d < w" "bit m (i + d)" using assms by blast
    then show ?thesis by (intro exI[of _ d]) simp
  next
    case 2
    then obtain d where "d < w" "bit m (w + i + d)" using assms by blast
    then show ?thesis by (intro exI[of _ "w + d"]) (simp add: ac_simps)
  qed
next
  assume "\<exists>d<2 * w. bit m (i + d)"
  then obtain d where d: "d < 2 * w" "bit m (i + d)" by blast
  show "bit (x OR drop_bit w x) i"
  proof (cases "d < w")
    case True
    with d assms have "bit x i" by blast
    then show ?thesis by (simp add: bit_or_iff)
  next
    case False
    with d have "d - w < w" "bit m (w + i + (d - w))" by (simp_all add: ac_simps)
    with assms have "bit x (w + i)" by blast
    then show ?thesis by (simp add: bit_or_iff bit_drop_bit_eq)
  qed
qed

lemma bit_smear: "bit (smear m) i = (\<exists>d<64. bit m (i + d))"
proof -
  define a1 where "a1 = m OR drop_bit 1 m"
  define a2 where "a2 = a1 OR drop_bit 2 a1"
  define a3 where "a3 = a2 OR drop_bit 4 a2"
  define a4 where "a4 = a3 OR drop_bit 8 a3"
  define a5 where "a5 = a4 OR drop_bit 16 a4"
  define a6 where "a6 = a5 OR drop_bit 32 a5"
  have s0: "\<And>i. bit m i = (\<exists>d<1. bit m (i + d))" by simp
  have s1: "\<And>i. bit a1 i = (\<exists>d<2. bit m (i + d))"
    unfolding a1_def using smear_step[where w=1 and m=m and x=m, OF s0] by simp
  have s2: "\<And>i. bit a2 i = (\<exists>d<4. bit m (i + d))"
    unfolding a2_def using smear_step[where w=2 and m=m and x=a1, OF s1] by simp
  have s3: "\<And>i. bit a3 i = (\<exists>d<8. bit m (i + d))"
    unfolding a3_def using smear_step[where w=4 and m=m and x=a2, OF s2] by simp
  have s4: "\<And>i. bit a4 i = (\<exists>d<16. bit m (i + d))"
    unfolding a4_def using smear_step[where w=8 and m=m and x=a3, OF s3] by simp
  have s5: "\<And>i. bit a5 i = (\<exists>d<32. bit m (i + d))"
    unfolding a5_def using smear_step[where w=16 and m=m and x=a4, OF s4] by simp
  have s6: "\<And>i. bit a6 i = (\<exists>d<64. bit m (i + d))"
    unfolding a6_def using smear_step[where w=32 and m=m and x=a5, OF s5] by simp
  have "smear m = a6"
    by (simp only: smear_def Let_def a1_def a2_def a3_def a4_def a5_def a6_def)
  then show ?thesis using s6 by simp
qed

lemma bit_imp_ge: "0 \<le> (m::int) \<Longrightarrow> bit m j \<Longrightarrow> 2 ^ j \<le> m"
proof (rule ccontr)
  assume m: "0 \<le> m" and b: "bit m j" and "\<not> 2 ^ j \<le> m"
  then have "m div 2 ^ j = 0" by (simp add: div_pos_pos_trivial)
  with b show False by (simp add: bit_iff_odd)
qed

lemma top_bit: "2 ^ k \<le> (m::int) \<Longrightarrow> m < 2 ^ Suc k \<Longrightarrow> bit m k"
proof -
  assume lo: "2 ^ k \<le> m" and hi: "m < 2 ^ Suc k"
  have "m = 1 * 2 ^ k + (m - 2 ^ k)" by simp
  moreover have "0 \<le> m - 2 ^ k" "m - 2 ^ k < 2 ^ k" using lo hi by simp_all
  ultimately have "m div 2 ^ k = 1"
    by (metis div_pos_pos_trivial div_mult_self4 add.commute add.right_neutral mult.commute power_not_zero zero_neq_numeral)
  then show ?thesis by (simp add: bit_iff_odd)
qed

lemma smear_mask:
  assumes "0 \<le> m" "m < 2 ^ k" "k = 0 \<or> 2 ^ (k - 1) \<le> m" "k \<le> 64"
  shows "smear m = mask k"
proof (rule bit_eqI)
  fix i
  show "bit (smear m) i = bit (mask k :: int) i"
  proof
    assume "bit (smear m) i"
    then obtain d where "d < 64" "bit m (i + d)" by (auto simp: bit_smear)
    then have "2 ^ (i + d) \<le> m" using assms(1) by (simp add: bit_imp_ge)
    with assms(2) have "(2::int) ^ (i + d) < 2 ^ k" by linarith
    then have "i + d < k" by simp
    then show "bit (mask k :: int) i" by (simp add: bit_mask_iff)
  next
    assume "bit (mask k :: int) i"
    then have ik: "i < k" by (simp add: bit_mask_iff)
    then have k: "k \<noteq> 0" "Suc (k - 1) = k" by simp_all
    with assms(3) have "2 ^ (k - 1) \<le> m" by simp
    moreover have "m < 2 ^ Suc (k - 1)" using assms(2) k by simp
    ultimately have "bit m (k - 1)" by (rule top_bit)
    moreover have "k - 1 = i + (k - 1 - i)" "k - 1 - i < 64" using ik assms(4) by simp_all
    ultimately show "bit (smear m) i" unfolding bit_smear by metis
  qed
qed

lemma ex_bitlen:
  assumes "0 \<le> (m::int)"
  shows "\<exists>k. m < 2 ^ k \<and> (k = 0 \<or> 2 ^ (k - 1) \<le> m)"
proof -
  have "nat m < 2 ^ nat m" by (rule less_exp)
  then have "int (nat m) < int (2 ^ nat m)" by (simp only: of_nat_less_iff)
  then have "m < 2 ^ nat m" using assms by simp
  then have ex: "\<exists>k. m < 2 ^ k" ..
  define k where "k = (LEAST k. m < 2 ^ k)"
  have a: "m < 2 ^ k" unfolding k_def using ex by (rule LeastI_ex)
  have "k = 0 \<or> 2 ^ (k - 1) \<le> m"
  proof (cases k)
    case 0 then show ?thesis by simp
  next
    case (Suc j)
    have "\<not> m < 2 ^ j"
    proof
      assume "m < 2 ^ j"
      then have "k \<le> j" unfolding k_def by (rule Least_le)
      with Suc show False by simp
    qed
    with Suc show ?thesis by simp
  qed
  with a show ?thesis by blast
qed

lemma nextPowerOfTwo_smear:
  "0 < n \<Longrightarrow> n \<le> 9223372036854775807 \<Longrightarrow>
   nextPowerOfTwo n = (if smear (n - 1) < 0 then 0 else i64 (smear (n - 1) + 1))"
  by (simp add: nextPowerOfTwo_def smear_def Let_def i64_id)

lemma nextPowerOfTwo_least:
  assumes "0 < n" "n \<le> 2 ^ 62"
  shows "is_least_pow2_ge (nextPowerOfTwo n) n"
proof -
  obtain k where k: "n - 1 < 2 ^ k" "k = 0 \<or> 2 ^ (k - 1) \<le> n - 1"
    using ex_bitlen[of "n - 1"] assms(1) by auto
  have k62: "k \<le> 62"
  proof (rule ccontr)
    assume "\<not> k \<le> 62"
    then have "62 \<le> k - 1" "k \<noteq> 0" by simp_all
    then have "(2::int) ^ 62 \<le> 2 ^ (k - 1)" by (intro power_increasing) simp_all
    with k(2) \<open>k \<noteq> 0\<close> assms(2) show False by simp
  qed
  have sm: "smear (n - 1) = mask k"
    using k k62 assms(1) by (intro smear_mask) simp_all
  have "(2::int) ^ k \<le> 2 ^ 62" using k62 by (intro power_increasing) simp_all
  then have pk: "(2::int) ^ k \<le> 4611686018427387904" by simp
  have nn: "\<not> smear (n - 1) < 0" by (simp add: sm)
  have "smear (n - 1) + 1 = 2 ^ k" by (simp add: sm mask_eq_exp_minus_1)
  moreover have "(0::int) \<le> 2 ^ k" by simp
  then have "i64 (2 ^ k) = 2 ^ k" using pk by (intro i64_id) linarith+
  ultimately have "nextPowerOfTwo n = 2 ^ k"
    using assms nn by (simp add: nextPowerOfTwo_smear)
  moreover have "n \<le> 2 ^ k" using k(1) by simp
  moreover have "\<forall>j::nat. n \<le> 2 ^ j \<longrightarrow> (2::int) ^ k \<le> 2 ^ j"
  proof (intro allI impI)
    fix j :: nat assume nj: "n \<le> 2 ^ j"
    show "(2::int) ^ k \<le> 2 ^ j"
    proof (cases "k = 0")
      case True then show ?thesis by simp
    next
      case False
      with k(2) have "2 ^ (k - 1) \<le> n - 1" by blast
      with nj have "(2::int) ^ (k - 1) < 2 ^ j" by linarith
      then have "k - 1 < j" by (simp only: power_strict_increasing_iff one_less_numeral_iff semiring_norm)
      then have "k \<le> j" using False by simp
      then show ?thesis by (intro power_increasing) simp_all
    qed
  qed
  ultimately show ?thesis unfolding is_least_pow2_ge_def by metis
qed


lemma nextPowerOfTwo_big:
  assumes "4611686018427387904 < n" "n \<le> 9223372036854775807"
  shows "nextPowerOfTwo n = - 9223372036854775808"
proof -
  have "smear (n - 1) = mask 63"
    using assms by (intro smear_mask) simp_all
  then have sm: "smear (n - 1) = 9223372036854775807" by (simp add: mask_eq_exp_minus_1)
  have "i64 9223372036854775808 = - 9223372036854775808" by (simp add: i64_def)
  then show ?thesis using assms by (simp add: nextPowerOfTwo_smear sm)
qed

lemma nextPowerOfTwo_ge:
  assumes "0 < n" "n \<le> 9223372036854775807" "0 \<le> nextPowerOfTwo n"
  shows "n \<le> nextPowerOfTwo n"
proof (cases "n \<le> 4611686018427387904")
  case True
  then have "is_least_pow2_ge (nextPowerOfTwo n) n" using assms(1) by (intro nextPowerOfTwo_least) simp_all
  then show ?thesis by (simp add: is_least_pow2_ge_def)
next
  case False
  then have "nextPowerOfTwo n = - 9223372036854775808" using assms(2) by (intro nextPowerOfTwo_big) simp_all
  with assms(3) show ?thesis by simp
qed

lemma grow_room:
  "binv b \<Longrightarrow> 0 < n \<Longrightarrow> Len b + n \<le> 9223372036854775807 \<Longrightarrow> grow b n = Inr b' \<Longrightarrow>
   int (len (buf b')) + n \<le> int (cap (buf b'))"
  using nextPowerOfTwo_ge[of "int (len (buf b)) - r b + n"] nextPowerOfTwo_ge[of n]
  by (auto simp: grow_def Let_def i64_unread i64_id binv_Reset Reset_def Len_def
        binv_def cap_def reslice_to_def slice_from_def
      make_slice_def slice_copy_def copy_into_def split: if_splits sum.splits)


lemma grow_drained: "int (len (buf b)) \<le> r b \<Longrightarrow> grow b n = (if 0 < n then grow (Reset b) n else Inr b)"
  by (simp add: grow_def Reset_def Let_def)

lemma slice_copy_make:
  "length src = k \<Longrightarrow> k \<le> c \<Longrightarrow>
   slice_copy \<lparr>arr = replicate c z, len = k\<rparr> src = \<lparr>arr = src @ replicate (c - k) z, len = k\<rparr>"
  by (simp add: slice_copy_def copy_into_def)

lemma grow_realloc_eq:
  assumes "binv b" "0 < n" "undrained b" "int (Cap b) < Len b + n"
    "Len b + n \<le> 4611686018427387904"
  shows "grow b n =
     Inr \<lparr>buf = \<lparr>arr = unread b @
                       replicate (nat (nextPowerOfTwo (Len b + n)) - length (unread b)) (CHR 0x00),
                 len = length (unread b)\<rparr>, r = 0\<rparr>"
proof -
  have u0: "0 \<le> Len b" using assms(1) by (simp add: binv_def Len_def)
  have lu: "length (unread b) = nat (Len b)" using length_unread[OF assms(1)] by simp
  have pw: "is_least_pow2_ge (nextPowerOfTwo (Len b + n)) (Len b + n)"
    using assms(2,5) u0 by (intro nextPowerOfTwo_least) simp_all
  then have ge: "Len b + n \<le> nextPowerOfTwo (Len b + n)" by (simp add: is_least_pow2_ge_def)
  have nofast: "\<not> n \<le> int (cap (buf b)) - int (len (buf b))"
    using assms(1,4) by (simp add: Len_def Cap_def binv_def)
  have nocompact: "\<not> (0 < r b \<and> i64 (int (len (buf b)) - r b + n) \<le> int (cap (buf b)))"
    using assms(1,4,5) u0 by (simp add: Len_def Cap_def i64_id)
  have keep: "(if int (len (buf b)) \<le> r b then Reset b else b) = b"
    using assms(3) by (auto simp: undrained_def Reset_def)
  have mk: "make_slice (Len b) (nextPowerOfTwo (Len b + n)) =
      Inr \<lparr>arr = replicate (nat (nextPowerOfTwo (Len b + n))) (CHR 0x00), len = length (unread b)\<rparr>"
    using u0 ge assms(2) lu by (simp add: make_slice_def)
  have sf: "slice_from (buf b) (r b) = Inr (unread b)"
    using binv_Bytes[OF assms(1)] by (simp add: Bytes_def)
  have le: "length (unread b) \<le> nat (nextPowerOfTwo (Len b + n))"
    using lu ge assms(2) by simp
  have i1: "i64 (int (len (buf b)) - r b) = Len b"
    using assms(1) by (simp add: i64_unread Len_def)
  have i2: "i64 (Len b + n) = Len b + n"
    using assms(2,5) u0 by (intro i64_id) simp_all
  show ?thesis
    unfolding grow_def
    using assms(2)
    by (simp add: keep Let_def nofast nocompact i1 i2 mk sf slice_copy_make[OF refl le])
qed

lemma grow_realloc:
  assumes "binv b" "0 < n" "int (Cap b) < Len b + n" "Len b + n \<le> 4611686018427387904"
  shows "\<exists>b'. grow b n = Inr b' \<and> is_least_pow2_ge (int (Cap b')) (Len b + n) \<and>
           r b' = 0 \<and> len (buf b') = length (unread b) \<and>
           arr (buf b') = unread b @ replicate (Cap b' - length (unread b)) (CHR 0x00)"
proof -
  define b1 where "b1 = (if int (len (buf b)) \<le> r b then Reset b else b)"
  have g: "grow b n = grow b1 n"
    using assms(2) by (simp add: b1_def grow_drained)
  have b1: "binv b1" "undrained b1" "Len b1 = Len b" "Cap b1 = Cap b" "unread b1 = unread b"
    using assms(1)
    by (auto simp: b1_def binv_Reset undrained_def Reset_def Len_def Cap_def cap_def binv_def
        unread_def)
  have u0: "0 \<le> Len b" using assms(1) by (simp add: binv_def Len_def)
  have lu: "length (unread b) = nat (Len b)" using length_unread[OF assms(1)] by simp
  have pw: "is_least_pow2_ge (nextPowerOfTwo (Len b + n)) (Len b + n)"
    using assms(2,4) u0 by (intro nextPowerOfTwo_least) simp_all
  then have ge: "Len b + n \<le> nextPowerOfTwo (Len b + n)" by (simp add: is_least_pow2_ge_def)
  have cp: "length (unread b) + (nat (nextPowerOfTwo (Len b + n)) - length (unread b)) =
      nat (nextPowerOfTwo (Len b + n))"
    using lu ge assms(2) by simp
  have eq: "grow b n =
     Inr \<lparr>buf = \<lparr>arr = unread b @
                       replicate (nat (nextPowerOfTwo (Len b + n)) - length (unread b)) (CHR 0x00),
                 len = length (unread b)\<rparr>, r = 0\<rparr>"
    using grow_realloc_eq[of b1 n] assms b1 g by simp
  have "int (nat (nextPowerOfTwo (Len b + n))) = nextPowerOfTwo (Len b + n)"
    using ge u0 assms(2) by simp
  then show ?thesis
    using pw by (simp add: eq Cap_def cap_def cp)
qed

lemma grow_total:
  assumes "binv b" "Len b + n \<le> 4611686018427387904"
  shows "\<exists>b'. grow b n = Inr b'"
proof (cases "0 < n")
  case False
  then show ?thesis by (simp add: grow_def)
next
  case True
  show ?thesis
  proof (cases "int (Cap b) < Len b + n")
    case True
    with assms \<open>0 < n\<close> show ?thesis using grow_realloc[of b n] by blast
  next
    case False
    with assms show ?thesis by (intro grow_fits_total) simp_all
  qed
qed

lemma append_props:
  assumes "binv b" "append (buf b) p = Inr s"
  shows "binv (b\<lparr>buf := s\<rparr>)" "unread (b\<lparr>buf := s\<rparr>) = unread b @ p" "cap s = cap (buf b)"
    "len s = len (buf b) + length p"
  using assms
  by (auto simp: append_def binv_def cap_def unread_def split: if_splits)

lemma drain_collapse:
  assumes "binv b"
  shows "binv (if int (len (buf b)) \<le> r b then Reset b else b)"
    "unread (if int (len (buf b)) \<le> r b then Reset b else b) = unread b"
    "Cap (if int (len (buf b)) \<le> r b then Reset b else b) = Cap b"
    "Len (if int (len (buf b)) \<le> r b then Reset b else b) = Len b"
    "undrained (if int (len (buf b)) \<le> r b then Reset b else b)"
  using assms
  by (auto simp: binv_Reset unread_drained Cap_def Reset_def cap_def Len_def binv_def
      undrained_def)

lemma Write_props:
  assumes "binv b" "Write b p = Inr (n, b')"
  shows "n = int (length p)" "binv b'" "unread b' = unread b @ p"
proof -
  show "n = int (length p)" using assms(2)
    by (auto simp: Write_def Let_def split: if_splits sum.splits)
  show "binv b'"
  proof (cases "p = []")
    case True with assms show ?thesis by (simp add: Write_def)
  next
    case False
    let ?b0 = "if int (len (buf b)) \<le> r b then Reset b else b"
    from False assms(2) obtain b1 s where g: "grow ?b0 (int (length p)) = Inr b1"
      and a: "append (buf b1) p = Inr s" and e: "b' = b1\<lparr>buf := s\<rparr>"
      by (auto simp: Write_def Let_def split: sum.splits)
    have "binv b1" using drain_collapse(1)[OF assms(1)] g by (rule grow_binv)
    then show ?thesis using a e by (simp add: append_props)
  qed
  show "unread b' = unread b @ p"
  proof (cases "p = []")
    case True with assms show ?thesis by (simp add: Write_def)
  next
    case False
    let ?b0 = "if int (len (buf b)) \<le> r b then Reset b else b"
    from False assms(2) obtain b1 s where g: "grow ?b0 (int (length p)) = Inr b1"
      and a: "append (buf b1) p = Inr s" and e: "b' = b1\<lparr>buf := s\<rparr>"
      by (auto simp: Write_def Let_def split: sum.splits)
    have b1: "binv b1" using drain_collapse(1)[OF assms(1)] g by (rule grow_binv)
    have "unread b1 = unread ?b0" using drain_collapse(1)[OF assms(1)] g by (rule grow_unread)
    then have "unread b1 = unread b" using drain_collapse(2)[OF assms(1)] by simp
    then show ?thesis using a e b1 by (simp add: append_props)
  qed
qed

lemma Write_undrained:
  assumes "binv b" "undrained b" "Write b p = Inr (n, b')"
  shows "undrained b'"
proof (cases "p = []")
  case True with assms show ?thesis by (simp add: Write_def)
next
  case False
  let ?b0 = "if int (len (buf b)) \<le> r b then Reset b else b"
  from False assms(3) obtain b1 s where g: "grow ?b0 (int (length p)) = Inr b1"
    and a: "append (buf b1) p = Inr s" and e: "b' = b1\<lparr>buf := s\<rparr>"
    by (auto simp: Write_def Let_def split: sum.splits)
  have b1: "binv b1" using drain_collapse(1)[OF assms(1)] g by (rule grow_binv)
  have "len s = len (buf b1) + length p" using b1 a by (rule append_props)
  then show ?thesis using b1 e False by (cases p) (auto simp: undrained_def binv_def)
qed

lemma Write_total:
  assumes "binv b" "Len b + int (length p) \<le> 4611686018427387904"
  shows "\<exists>b'. Write b p = Inr (int (length p), b')"
proof (cases "p = []")
  case True then show ?thesis by (simp add: Write_def)
next
  case False
  let ?b0 = "if int (len (buf b)) \<le> r b then Reset b else b"
  note dc = drain_collapse[OF assms(1)]
  have "\<exists>b1. grow ?b0 (int (length p)) = Inr b1"
    using dc(1) assms(2) dc(4) by (intro grow_total) simp_all
  then obtain b1 where g: "grow ?b0 (int (length p)) = Inr b1" ..
  have "int (len (buf b1)) + int (length p) \<le> int (cap (buf b1))"
    using dc(1) _ _ g
  proof (rule grow_room)
    show "0 < int (length p)" using False by simp
    show "Len ?b0 + int (length p) \<le> 9223372036854775807" using assms(2) dc(4) by simp
  qed
  then have "\<exists>s. append (buf b1) p = Inr s" by (simp add: append_def)
  then show ?thesis using False g by (auto simp: Write_def Let_def)
qed

lemma Write_Cap_fits:
  assumes "binv b" "Len b + int (length p) \<le> int (Cap b)" "Write b p = Inr (n, b')"
  shows "Cap b' = Cap b"
proof (cases "p = []")
  case True with assms show ?thesis by (simp add: Write_def)
next
  case False
  let ?b0 = "if int (len (buf b)) \<le> r b then Reset b else b"
  note dc = drain_collapse[OF assms(1)]
  from False assms(3) obtain b1 s where g: "grow ?b0 (int (length p)) = Inr b1"
    and a: "append (buf b1) p = Inr s" and e: "b' = b1\<lparr>buf := s\<rparr>"
    by (auto simp: Write_def Let_def split: sum.splits)
  have b1: "binv b1" using dc(1) g by (rule grow_binv)
  have "Cap b1 = Cap ?b0" using dc(1) _ g
    by (rule grow_Cap_fits) (simp add: dc assms(2))
  moreover have "cap s = cap (buf b1)" using b1 a by (rule append_props)
  ultimately show ?thesis using e dc(3) by (simp add: Cap_def)
qed

lemma WriteString_eq_Write: "WriteString b s = Write b s"
  by (simp add: WriteString_def Write_def)

lemma WriteByte_eq_Write: "WriteByte b v = map_sum id snd (Write b [v])"
  by (simp add: WriteByte_def Write_def Let_def split: sum.splits)

lemma unread_advance:
  "binv b \<Longrightarrow> unread (b\<lparr>r := r b + int m\<rparr>) = drop m (unread b)"
  by (simp add: unread_def binv_def nat_add_distrib add.commute)

lemma advance_props:
  assumes "binv b" "r b + int m \<le> int (len (buf b))"
  shows "binv (let b1 = b\<lparr>r := r b + int m\<rparr> in if int (len (buf b1)) \<le> r b1 then Reset b1 else b1)"
    "unread (let b1 = b\<lparr>r := r b + int m\<rparr> in if int (len (buf b1)) \<le> r b1 then Reset b1 else b1)
       = drop m (unread b)"
    "Cap (let b1 = b\<lparr>r := r b + int m\<rparr> in if int (len (buf b1)) \<le> r b1 then Reset b1 else b1)
       = Cap b"
    "undrained (let b1 = b\<lparr>r := r b + int m\<rparr> in if int (len (buf b1)) \<le> r b1 then Reset b1 else b1)"
proof -
  let ?b1 = "b\<lparr>r := r b + int m\<rparr>"
  have b1: "binv ?b1" using assms by (simp add: binv_def)
  have u1: "unread ?b1 = drop m (unread b)" using assms(1) by (rule unread_advance)
  note dc = drain_collapse[OF b1]
  show "binv (let b1 = ?b1 in if int (len (buf b1)) \<le> r b1 then Reset b1 else b1)"
    using dc(1) by (simp add: Let_def)
  show "unread (let b1 = ?b1 in if int (len (buf b1)) \<le> r b1 then Reset b1 else b1) = drop m (unread b)"
    using dc(2) u1 by (simp add: Let_def)
  show "Cap (let b1 = ?b1 in if int (len (buf b1)) \<le> r b1 then Reset b1 else b1) = Cap b"
    using dc(3) by (simp add: Let_def Cap_def)
  show "undrained (let b1 = ?b1 in if int (len (buf b1)) \<le> r b1 then Reset b1 else b1)"
    using dc(5) by (simp add: Let_def)
qed

lemma Read_eq:
  assumes "binv b"
  shows "\<exists>e b'. Read b k = Inr ((take k (unread b), e), b') \<and> binv b' \<and>
           unread b' = drop k (unread b) \<and> Cap b' = Cap b \<and> (0 < k \<longrightarrow> undrained b') \<and>
           (undrained b \<longrightarrow> undrained b')"
proof -
  have sf: "slice_from (buf b) (r b) = Inr (unread b)"
    using binv_Bytes[OF assms] by (simp add: Bytes_def)
  have lu: "int (length (unread b)) = int (len (buf b)) - r b"
    using length_unread[OF assms] by (simp add: Len_def)
  show ?thesis
  proof (cases "k = 0 \<or> int (len (buf b)) \<le> r b")
    case True
    have "undrained (Reset b)" "Cap (Reset b) = Cap b"
      by (simp_all add: undrained_def Reset_def Cap_def cap_def)
    with True show ?thesis using assms
      by (auto simp: Read_def binv_Reset unread_drained)
  next
    case False
    then have k: "0 < k" "r b < int (len (buf b))" by simp_all
    define m where "m = min (length (unread b)) k"
    have rg: "r b + int m \<le> int (len (buf b))" using lu by (simp add: m_def)
    then have i: "i64 (r b + int m) = r b + int m"
      using assms by (intro i64_id) (simp_all add: binv_def)
    have dm: "drop m (unread b) = drop k (unread b)" by (simp add: m_def min_def)
    note ap = advance_props[OF assms rg]
    have "Read b k = Inr ((take k (unread b), None),
        (let b1 = b\<lparr>r := r b + int m\<rparr> in if int (len (buf b1)) \<le> r b1 then Reset b1 else b1))"
      using k i by (simp add: Read_def sf Let_def m_def)
    then show ?thesis using ap dm by simp
  qed
qed

lemma Write_total_fits:
  assumes "binv b" "Len b + int (length p) \<le> int (Cap b)"
  shows "\<exists>b'. Write b p = Inr (int (length p), b')"
proof (cases "p = []")
  case True then show ?thesis by (simp add: Write_def)
next
  case False
  let ?b0 = "if int (len (buf b)) \<le> r b then Reset b else b"
  note dc = drain_collapse[OF assms(1)]
  have "\<exists>b1. grow ?b0 (int (length p)) = Inr b1"
    using dc(1) assms(2) dc(3,4) by (intro grow_fits_total) simp_all
  then obtain b1 where g: "grow ?b0 (int (length p)) = Inr b1" ..
  have cb: "int (Cap b) < 9223372036854775808" using assms(1) by (simp add: binv_def Cap_def)
  have "int (len (buf b1)) + int (length p) \<le> int (cap (buf b1))"
    using dc(1) _ _ g
  proof (rule grow_room)
    show "0 < int (length p)" using False by simp
    show "Len ?b0 + int (length p) \<le> 9223372036854775807" using assms(2) dc(4) cb by simp
  qed
  then have "\<exists>s. append (buf b1) p = Inr s" by (simp add: append_def)
  then show ?thesis using False g by (auto simp: Write_def Let_def)
qed

lemma do_write_props:
  assumes "binv b" "do_write b c = Inr (n, b')"
  shows "n = int (length (written c))" "binv b'" "unread b' = unread b @ written c"
  using assms Write_props[of b "written c"]
  by (cases c; auto simp: WriteString_eq_Write WriteByte_eq_Write map_sum_def split: sum.splits)+

lemma do_write_total:
  assumes "binv b" "Len b + int (length (written c)) \<le> 4611686018427387904"
  shows "\<exists>b'. do_write b c = Inr (int (length (written c)), b')"
  using Write_total[OF assms]
  by (cases c) (auto simp: WriteString_eq_Write WriteByte_eq_Write)

lemma write_all_props:
  assumes "binv b" "Len b + int (length (concat (map written cs))) \<le> 4611686018427387904"
  shows "\<exists>b'. write_all b cs = Inr (int (length (concat (map written cs))), b') \<and> binv b' \<and>
           unread b' = unread b @ concat (map written cs)"
  using assms
proof (induction cs arbitrary: b)
  case Nil
  then show ?case by simp
next
  case (Cons c cs)
  have l0: "0 \<le> int (length (concat (map written cs)))" by simp
  from Cons.prems have "Len b + int (length (written c)) \<le> 4611686018427387904" by simp
  with Cons.prems(1) obtain b1 where w: "do_write b c = Inr (int (length (written c)), b1)"
    using do_write_total by blast
  note p = do_write_props[OF Cons.prems(1) w]
  have "Len b1 = Len b + int (length (written c))"
    using length_unread[OF p(2)] length_unread[OF Cons.prems(1)] p(3) by simp
  with Cons.prems(2) have "Len b1 + int (length (concat (map written cs))) \<le> 4611686018427387904"
    by simp
  from Cons.IH[OF p(2) this] obtain b2 where
    "write_all b1 cs = Inr (int (length (concat (map written cs))), b2)" "binv b2"
    "unread b2 = unread b1 @ concat (map written cs)" by blast
  then show ?case using w p(3) by simp
qed

lemma min_split: "min (l::nat) k + min s (l - k) = min (k + s) l"
  by arith

lemma read_all_props:
  assumes "binv b"
  shows "\<exists>b'. read_all b ks =
            Inr (take (sum_list ks) (unread b), int (min (sum_list ks) (length (unread b))), b') \<and>
           binv b'"
  using assms
proof (induction ks arbitrary: b)
  case Nil
  then show ?case by simp
next
  case (Cons k ks)
  from Read_eq[OF Cons.prems, of k] obtain e b1 where
    rd: "Read b k = Inr ((take k (unread b), e), b1)" and b1: "binv b1"
    and u1: "unread b1 = drop k (unread b)" by blast
  from Cons.IH[OF b1] obtain b2 where
    ra: "read_all b1 ks =
      Inr (take (sum_list ks) (unread b1), int (min (sum_list ks) (length (unread b1))), b2)"
    and b2: "binv b2" by blast
  have "take k (unread b) @ take (sum_list ks) (drop k (unread b)) = take (k + sum_list ks) (unread b)"
    by (simp add: take_add)
  moreover have "int (min (length (unread b)) k) + int (min (sum_list ks) (length (unread b) - k))
      = int (min (k + sum_list ks) (length (unread b)))"
    using min_split[of "length (unread b)" k "sum_list ks"] by (simp only: of_nat_add[symmetric])
  ultimately show ?case using rd ra b2 u1 by simp
qed

lemma length_copy_into [simp]: "length (copy_into dst src) = length dst"
  by (simp add: copy_into_def)

lemma ReadFrom_loop_inv:
  assumes "reader_ok rd" "binv b" "undrained b"
    "ReadFrom_loop fuel rd st b tot = Some (Inr (res, b', st'))"
  shows "binv b' \<and> undrained b'"
  using assms(2-)
proof (induction fuel arbitrary: b st tot)
  case 0
  then show ?case by simp
next
  case (Suc fuel)
  define g where "g = (if len (buf b) = cap (buf b) then grow b minRead else Inr b)"
  from Suc.prems(3) obtain b1 where g1: "g = Inr b1"
    by (cases g) (simp_all add: g_def)
  have b1: "binv b1" "undrained b1"
    using g1 Suc.prems(1,2) grow_binv grow_undrained'
    by (auto simp: g_def split: if_splits)
  obtain data err st1 where rd: "rd st (cap (buf b1) - len (buf b1)) = ((data, err), st1)"
    by (metis surj_pair)
  have n: "length data \<le> cap (buf b1) - len (buf b1)"
    using assms(1) rd unfolding reader_ok_def by (metis fst_conv)
  define s where "s = \<lparr>arr = take (len (buf b1)) (arr (buf b1)) @
                           copy_into (drop (len (buf b1)) (arr (buf b1))) data,
                        len = len (buf b1) + length data\<rparr>"
  have lc: "len (buf b1) \<le> cap (buf b1)" using b1(1) by (simp add: binv_def)
  have nc: "len (buf b1) + length data \<le> cap (buf b1)"
    using n lc by arith
  have "int (len (buf b1) + length data) \<le> int (cap (buf b1))"
    using nc by (simp only: of_nat_le_iff)
  moreover have "int (cap (buf b1)) < 9223372036854775808" using b1(1) by (simp add: binv_def)
  ultimately have i: "i64 (int (len (buf b1)) + int (length data)) = int (len (buf b1)) + int (length data)"
    by (intro i64_id) simp_all
  have rs: "(if int (length data) > 0
       then reslice_to ((buf b1)\<lparr>len := cap (buf b1),
              arr := take (len (buf b1)) (arr (buf b1)) @
                     copy_into (drop (len (buf b1)) (arr (buf b1))) data\<rparr>)
              (i64 (int (len (buf b1)) + int (length data)))
       else reslice_to ((buf b1)\<lparr>len := cap (buf b1),
              arr := take (len (buf b1)) (arr (buf b1)) @
                     copy_into (drop (len (buf b1)) (arr (buf b1))) data\<rparr>)
              (int (len (buf b1)))) = Inr s"
    using nc by (auto simp: i reslice_to_def cap_def s_def simp del: of_nat_add)
  define b2 where "b2 = b1\<lparr>buf := s\<rparr>"
  have cs: "cap s = cap (buf b1)" using lc by (simp add: s_def cap_def)
  have "undrained b2"
    using b1(2) by (cases "data = []") (auto simp: b2_def s_def undrained_def)
  moreover have "binv b2"
    using b1(1) nc unfolding binv_def b2_def by (simp add: cs) (simp add: s_def)
  ultimately have b2: "binv b2" "undrained b2" by simp_all
  have step: "ReadFrom_loop (Suc fuel) rd st b tot =
      (case err of
         Some e \<Rightarrow> Some (Inr ((if 0 < int (length data) then i64 (tot + int (length data)) else tot,
                                 if e = EOF then None else Some e), b2, st1))
       | None \<Rightarrow> ReadFrom_loop fuel rd st1 b2
                   (if 0 < int (length data) then i64 (tot + int (length data)) else tot))"
  proof (cases "data = []")
    case True
    with rs have "reslice_to ((buf b1)\<lparr>len := cap (buf b1),
              arr := take (len (buf b1)) (arr (buf b1)) @
                     copy_into (drop (len (buf b1)) (arr (buf b1))) []\<rparr>)
              (int (len (buf b1))) = Inr s" by simp
    with True g1 show ?thesis unfolding ReadFrom_loop.simps g_def[symmetric] b2_def
      by (simp add: rd Let_def)
  next
    case False
    with rs have "reslice_to ((buf b1)\<lparr>len := cap (buf b1),
              arr := take (len (buf b1)) (arr (buf b1)) @
                     copy_into (drop (len (buf b1)) (arr (buf b1))) data\<rparr>)
              (i64 (int (len (buf b1)) + int (length data))) = Inr s" by simp
    with False g1 show ?thesis unfolding ReadFrom_loop.simps g_def[symmetric] b2_def
      by (simp add: rd Let_def)
  qed
  show ?case
  proof (cases err)
    case None
    with step Suc.prems(3) have "ReadFrom_loop fuel rd st1 b2
        (if 0 < int (length data) then i64 (tot + int (length data)) else tot)
        = Some (Inr (res, b', st'))" by simp
    from Suc.IH[OF b2 this] show ?thesis .
  next
    case (Some e)
    with step Suc.prems(3) have "b' = b2" by simp
    with b2 show ?thesis by simp
  qed
qed

lemma ReadFrom_inv:
  assumes "reader_ok rd" "binv b" "ReadFrom fuel b rd st = Some (Inr (res, b', st'))"
  shows "binv b' \<and> undrained b'"
  using assms(3) ReadFrom_loop_inv[OF assms(1) drain_collapse(1)[OF assms(2)] drain_collapse(5)[OF assms(2)]]
  by (simp add: ReadFrom_def Let_def)

lemma signed_take_bit_nonneg_id:
  assumes "0 \<le> (x::int)" "x < 2 ^ Suc n" "0 \<le> signed_take_bit n x"
  shows "signed_take_bit n x = x"
proof -
  have nb: "\<not> bit x n" using assms(3) by (simp add: signed_take_bit_nonnegative_iff)
  have "x < 2 ^ n"
  proof (rule ccontr)
    assume "\<not> x < 2 ^ n"
    then have "2 ^ n \<le> x" by simp
    then have "bit x n" using assms(2) by (rule top_bit)
    with nb show False ..
  qed
  moreover have "- (2 ^ n) \<le> x"
  proof -
    have "- (2 ^ n) \<le> (0::int)" by simp
    then show ?thesis using assms(1) by (rule order_trans)
  qed
  ultimately show ?thesis by (intro signed_take_bit_int_eq_self)
qed

lemma i64_nonneg_id:
  assumes "0 \<le> x" "x < 18446744073709551616" "0 \<le> i64 x"
  shows "i64 x = x"
proof -
  have "x < 2 ^ Suc 63" using assms(2) by simp
  with assms(1) show ?thesis
    using assms(3) unfolding i64_def by (rule signed_take_bit_nonneg_id)
qed

lemma WriteTo_props:
  assumes "writer_ok w" "binv b" "WriteTo b w st = Inr (res, b', st')"
  shows "binv b' \<and> undrained b' \<and> Cap b' = Cap b \<and> unread b' = drop (nat (fst res)) (unread b)"
proof (cases "int (len (buf b)) \<le> r b")
  case True
  have "undrained (Reset b)" "Cap (Reset b) = Cap b"
    by (simp_all add: undrained_def Reset_def Cap_def cap_def)
  with True assms(2,3) show ?thesis
    by (auto simp: WriteTo_def binv_Reset unread_drained)
next
  case False
  obtain n err st1 where w: "w st (unread b) = ((n, err), st1)" by (metis surj_pair)
  have n: "n \<le> int (length (unread b))"
    using assms(1) w unfolding writer_ok_def by (metis fst_conv)
  have lu: "int (length (unread b)) = int (len (buf b)) - r b"
    using length_unread[OF assms(2)] by (simp add: Len_def)
  define b2 where "b2 = (if n > 0
                          then (let b1 = b\<lparr>r := i64 (r b + n)\<rparr>
                                in if r b1 \<ge> int (len (buf b1)) then Reset b1 else b1)
                          else b)"
  have res: "fst res = n" "b' = b2"
    using assms(3) False w
    by (auto simp: WriteTo_def binv_Bytes[OF assms(2)] Let_def b2_def split: if_splits)
  have "binv b2 \<and> undrained b2 \<and> Cap b2 = Cap b \<and> unread b2 = drop (nat n) (unread b)"
  proof (cases "0 < n")
    case False
    with \<open>\<not> int (len (buf b)) \<le> r b\<close> assms(2) show ?thesis
      by (simp add: b2_def undrained_def)
  next
    case True
    then have nn: "n = int (nat n)" by simp
    have rg: "r b + int (nat n) \<le> int (len (buf b))" using n lu True by simp
    then have "i64 (r b + int (nat n)) = r b + int (nat n)"
      using assms(2) by (intro i64_id) (simp_all add: binv_def)
    then have i: "i64 (r b + n) = r b + int (nat n)" using nn by simp
    note ap = advance_props[OF assms(2) rg]
    have "b2 = (let b1 = b\<lparr>r := r b + int (nat n)\<rparr>
                in if int (len (buf b1)) \<le> r b1 then Reset b1 else b1)"
      using True by (simp add: b2_def i)
    with ap show ?thesis by simp
  qed
  with res show ?thesis by simp
qed

lemma Reserve_inv:
  assumes "is_int64 n" "binv b" "Reserve b n = Inr (v, b')"
  shows "binv b' \<and> (undrained b \<longrightarrow> undrained b')"
proof (cases "n \<le> 0")
  case True
  with assms show ?thesis by (simp add: Reserve_def)
next
  case False
  then have n0: "0 < n" by simp
  from assms(3) False obtain b1 s where g: "grow b n = Inr b1"
    and rs: "reslice_to (buf b1) (i64 (int (len (buf b1)) + n)) = Inr s"
    and e: "b' = b1\<lparr>buf := s\<rparr>"
    by (auto simp: Reserve_def Let_def split: sum.splits)
  have b1: "binv b1" using assms(2) g by (rule grow_binv)
  have r1: "0 \<le> r b1" "r b1 \<le> int (len (buf b1))"
    and c1: "int (len (buf b1)) < 9223372036854775808"
    using b1 by (simp_all add: binv_def)
  have hi: "0 \<le> i64 (int (len (buf b1)) + n)" "i64 (int (len (buf b1)) + n) \<le> int (cap (buf b1))"
    and s: "s = (buf b1)\<lparr>len := nat (i64 (int (len (buf b1)) + n))\<rparr>"
    using rs by (auto simp: reslice_to_def split: if_splits)
  have "i64 (int (len (buf b1)) + n) = int (len (buf b1)) + n"
    using n0 c1 assms(1) hi(1) by (intro i64_nonneg_id) (simp_all add: is_int64_def)
  with hi s have s': "len s = len (buf b1) + nat n" "cap s = cap (buf b1)"
    "int (len (buf b1)) + n \<le> int (cap (buf b1))"
    using n0 by (simp_all add: cap_def nat_add_distrib)
  have "len (buf b1) + nat n \<le> cap (buf b1)" using s'(3) n0 by linarith
  then have "binv b'" using b1 unfolding binv_def e by (simp add: s')
  moreover have "undrained b'" using r1 n0 by (simp add: undrained_def e s')
  ultimately show ?thesis by simp
qed

lemma apply_op_inv:
  assumes "op_ok x" "binv b" "undrained b" "apply_op b x = Some (Inr b')"
  shows "binv b' \<and> undrained b'"
proof (cases x)
  case (OpWrite p)
  with assms(4) obtain n where "Write b p = Inr (n, b')"
    by (cases "Write b p") auto
  with assms(2,3) show ?thesis using Write_props(2) Write_undrained by blast
next
  case (OpWriteByte v)
  with assms(4) obtain n where "Write b [v] = Inr (n, b')"
    by (cases "Write b [v]") (auto simp: WriteByte_eq_Write)
  with assms(2,3) show ?thesis using Write_props(2) Write_undrained by blast
next
  case (OpWriteString s)
  with assms(4) obtain n where "Write b s = Inr (n, b')"
    by (cases "Write b s") (auto simp: WriteString_eq_Write)
  with assms(2,3) show ?thesis using Write_props(2) Write_undrained by blast
next
  case (OpRead k)
  from Read_eq[OF assms(2), of k] obtain e b1 where
    "Read b k = Inr ((take k (unread b), e), b1)" "binv b1" "undrained b \<longrightarrow> undrained b1"
    by blast
  with OpRead assms(3,4) show ?thesis by simp
next
  case (OpWriteTo w st)
  with assms(4) obtain res st' where "WriteTo b w st = Inr (res, b', st')"
    by (cases "WriteTo b w st") auto
  with OpWriteTo assms(1,2) show ?thesis using WriteTo_props by fastforce
next
  case (OpReadFrom fuel rd st)
  with assms(4) obtain res st' where "ReadFrom fuel b rd st = Some (Inr (res, b', st'))"
    by (cases "ReadFrom fuel b rd st"; cases "the (ReadFrom fuel b rd st)") auto
  with OpReadFrom assms(1,2) show ?thesis using ReadFrom_inv by fastforce
next
  case (OpReserve n)
  with assms(4) obtain v where "Reserve b n = Inr (v, b')"
    by (cases "Reserve b n") auto
  with OpReserve assms(1,2,3) show ?thesis using Reserve_inv by fastforce
next
  case (OpGrow n)
  with assms(4) have "n \<le> 0 \<and> b' = b \<or> grow b n = Inr b'"
    by (auto simp: Grow_def split: if_splits)
  with assms(2,3) show ?thesis using grow_binv grow_undrained' by blast
next
  case OpReset
  have "undrained (Reset b)" by (simp add: undrained_def Reset_def)
  with OpReset assms(2,4) show ?thesis by (auto simp: binv_Reset)
qed

lemma run_ops_inv:
  assumes "\<forall>x\<in>set ops. op_ok x" "binv b" "undrained b" "run_ops b ops = Some (Inr b')"
  shows "binv b' \<and> undrained b'"
  using assms
proof (induction ops arbitrary: b)
  case Nil
  then show ?case by simp
next
  case (Cons x xs)
  from Cons.prems(4) obtain b1 where a: "apply_op b x = Some (Inr b1)"
    and rest: "run_ops b1 xs = Some (Inr b')"
    by (auto split: option.splits sum.splits)
  have "binv b1 \<and> undrained b1"
    using Cons.prems(1,2,3) a by (intro apply_op_inv[of x b]) simp_all
  with Cons.IH[of b1] Cons.prems(1) rest show ?case by simp
qed

lemma NewBuffer_inv: "is_int64 c \<Longrightarrow> binv (NewBuffer c) \<and> undrained (NewBuffer c)"
  by (simp add: binv_def undrained_def NewBuffer_def cap_def Let_def is_int64_def)

lemma shortWriter_ok: "writer_ok (shortWriter limit)"
  by (simp add: writer_ok_def shortWriter_def Let_def)

lemma stringsReader_ok: "reader_ok stringsReader"
  by (simp add: reader_ok_def stringsReader_def)

lemma empty_of_no_unread:
  assumes "binv b" "undrained b" "unread b = []"
  shows "r b = 0 \<and> len (buf b) = 0"
proof -
  have "Len b = 0" using length_unread[OF assms(1)] assms(3) by simp
  with assms(2) show ?thesis by (auto simp: Len_def undrained_def)
qed

lemma WriteTo_total:
  assumes "binv b"
  shows "\<exists>res b' st'. WriteTo b w st = Inr (res, b', st')"
proof -
  obtain n err st1 where "w st (unread b) = ((n, err), st1)" by (metis surj_pair)
  then show ?thesis
    by (simp add: WriteTo_def binv_Bytes[OF assms] Let_def)
qed

lemma grow_fault: "grow b n = Inl e \<Longrightarrow> e \<noteq> GrowSliceOutOfRange"
  by (auto simp: grow_def Let_def reslice_to_def slice_from_def make_slice_def
      split: if_splits sum.splits)

lemma Write_GrowSlice_only_overflow:
  assumes "binv b" "Write b p = Inl GrowSliceOutOfRange"
  shows "9223372036854775807 < Len b + int (length p)"
proof (rule ccontr)
  assume n: "\<not> 9223372036854775807 < Len b + int (length p)"
  let ?b0 = "if int (len (buf b)) \<le> r b then Reset b else b"
  note dc = drain_collapse[OF assms(1)]
  have pn: "p \<noteq> []" using assms(2) by (auto simp: Write_def)
  show False
  proof (cases "grow ?b0 (int (length p))")
    case (Inl e)
    with assms(2) pn have "e = GrowSliceOutOfRange" by (simp add: Write_def Let_def)
    with grow_fault[OF Inl] show False by simp
  next
    case (Inr b1)
    have "int (len (buf b1)) + int (length p) \<le> int (cap (buf b1))"
      using dc(1) _ _ Inr
    proof (rule grow_room)
      show "0 < int (length p)" using pn by simp
      show "Len ?b0 + int (length p) \<le> 9223372036854775807" using n dc(4) by simp
    qed
    then have "\<exists>s. append (buf b1) p = Inr s" by (simp add: append_def)
    with assms(2) pn Inr show False by (auto simp: Write_def Let_def)
  qed
qed

section \<open>Claims on the buffer\<close>

subsection \<open>C4: reallocation to a power of two\<close>

text \<open>
  C4, as amended. Let a buffer hold \<open>Len b\<close> unread bytes and let an operation need
  \<open>n > 0\<close> more writable bytes than its capacity can give, with or without compaction
  (\<open>Cap b < Len b + n\<close>). If \<open>Len b + n \<le> 2^62\<close>, then \<^verbatim>\<open>grow\<close> returns, the new
  capacity is the least power of two that is at least \<open>Len b + n\<close>, the new storage
  holds exactly the previous unread bytes (followed by zero bytes), and the read
  cursor is zero.
\<close>

theorem grow_reallocates_power_of_two:
  assumes "binv b" "0 < n" "int (Cap b) < Len b + n" "Len b + n \<le> 2 ^ 62"
  shows "\<exists>b'. grow b n = Inr b' \<and>
           is_least_pow2_ge (int (Cap b')) (Len b + n) \<and>
           Bytes b' = Bytes b \<and> r b' = 0 \<and>
           arr (buf b') = unread b @ replicate (Cap b' - length (unread b)) (CHR 0x00)"
proof -
  from assms obtain b' where g: "grow b n = Inr b'"
    and p: "is_least_pow2_ge (int (Cap b')) (Len b + n)" "r b' = 0"
      "arr (buf b') = unread b @ replicate (Cap b' - length (unread b)) (CHR 0x00)"
    using grow_realloc[of b n] by auto
  have "binv b'" using assms(1) g by (rule grow_binv)
  moreover have "unread b' = unread b" using assms(1) g by (rule grow_unread)
  ultimately have "Bytes b' = Bytes b" using assms(1) by (simp add: binv_Bytes)
  with g p show ?thesis by simp
qed

text \<open>
  The amended claim at the buffer of capacity 8 that holds \<open>abcdefgh\<close> with three
  bytes read, and \<open>n = 4\<close>: nine bytes are required and the new capacity is 16.
\<close>

theorem grow_reallocates_power_of_two_witness:
  "binv \<lparr>buf = \<lparr>arr = ''abcdefgh'', len = 8\<rparr>, r = 3\<rparr> \<and> (0::int) < 4 \<and>
   int (Cap \<lparr>buf = \<lparr>arr = ''abcdefgh'', len = 8\<rparr>, r = 3\<rparr>)
     < Len \<lparr>buf = \<lparr>arr = ''abcdefgh'', len = 8\<rparr>, r = 3\<rparr> + 4 \<and>
   Len \<lparr>buf = \<lparr>arr = ''abcdefgh'', len = 8\<rparr>, r = 3\<rparr> + 4 \<le> 2 ^ 62 \<and>
   grow \<lparr>buf = \<lparr>arr = ''abcdefgh'', len = 8\<rparr>, r = 3\<rparr> 4 =
     Inr \<lparr>buf = \<lparr>arr = ''defgh'' @ replicate 11 (CHR 0x00), len = 5\<rparr>, r = 0\<rparr> \<and>
   is_least_pow2_ge 16 (Len \<lparr>buf = \<lparr>arr = ''abcdefgh'', len = 8\<rparr>, r = 3\<rparr> + 4)"
proof -
  let ?b = "\<lparr>buf = \<lparr>arr = ''abcdefgh'', len = 8\<rparr>, r = 3\<rparr>"
  have h: "binv ?b" "(0::int) < 4" "int (Cap ?b) < Len ?b + 4" "Len ?b + 4 \<le> 2 ^ 62"
    by (simp_all add: binv_def Cap_def cap_def Len_def)
  have e: "grow ?b 4 = Inr \<lparr>buf = \<lparr>arr = ''defgh'' @ replicate 11 (CHR 0x00), len = 5\<rparr>, r = 0\<rparr>"
    by (simp add: grow_def Let_def cap_def i64_def nextPowerOfTwo_def make_slice_def
        slice_from_def slice_copy_def copy_into_def reslice_to_def)
  from grow_reallocates_power_of_two[OF h] e
  have "is_least_pow2_ge 16 (Len ?b + 4)" by (simp add: Cap_def cap_def)
  with h e show ?thesis by simp
qed

text \<open>
  C4 as stated fails where \<open>Len b + n\<close> leaves the range of a 64-bit \<^verbatim>\<open>int\<close>. The
  buffer of capacity 8 holds \<open>abcdefgh\<close> with three bytes read; \<^verbatim>\<open>Grow(MaxInt64)\<close>
  cannot be met from its capacity, yet the sum \<^verbatim>\<open>unread+n\<close> wraps to a negative
  number, the test for compaction succeeds, and \<^verbatim>\<open>Grow\<close> returns with the capacity
  still 8.
\<close>

theorem grow_overflow_counterexample:
  "run_ops (NewBuffer 8) [OpWriteString ''abcdefgh'', OpRead 3 :: (unit, unit) buffer_op] =
     Some (Inr \<lparr>buf = \<lparr>arr = ''abcdefgh'', len = 8\<rparr>, r = 3\<rparr>) \<and>
   binv \<lparr>buf = \<lparr>arr = ''abcdefgh'', len = 8\<rparr>, r = 3\<rparr> \<and>
   int (Cap \<lparr>buf = \<lparr>arr = ''abcdefgh'', len = 8\<rparr>, r = 3\<rparr>)
     < Len \<lparr>buf = \<lparr>arr = ''abcdefgh'', len = 8\<rparr>, r = 3\<rparr> + 9223372036854775807 \<and>
   Grow \<lparr>buf = \<lparr>arr = ''abcdefgh'', len = 8\<rparr>, r = 3\<rparr> 9223372036854775807 =
     Inr \<lparr>buf = \<lparr>arr = ''defghfgh'', len = 5\<rparr>, r = 0\<rparr> \<and>
   Cap \<lparr>buf = \<lparr>arr = ''defghfgh'', len = 5\<rparr>, r = 0\<rparr> = 8 \<and>
   \<not> is_least_pow2_ge (int (Cap \<lparr>buf = \<lparr>arr = ''defghfgh'', len = 5\<rparr>, r = 0\<rparr>))
         (Len \<lparr>buf = \<lparr>arr = ''abcdefgh'', len = 8\<rparr>, r = 3\<rparr> + 9223372036854775807)"
  by (simp add: NewBuffer_def WriteString_def Read_def Grow_def grow_def Let_def cap_def
        Cap_def Len_def i64_def
        Reset_def append_def binv_def is_least_pow2_ge_def
        nextPowerOfTwo_def make_slice_def
        slice_from_def slice_copy_def copy_into_def reslice_to_def)

subsection \<open>C2: round trip\<close>

text \<open>
  C2. Starting from an empty buffer, a sequence of \<^verbatim>\<open>Write\<close>, \<^verbatim>\<open>WriteByte\<close> and
  \<^verbatim>\<open>WriteString\<close> calls that appends the bytes \<open>B\<close> returns counts that add up to the
  length of \<open>B\<close> and leaves \<open>B\<close> as the unread content; any following sequence of
  \<^verbatim>\<open>Read\<close> calls, with destinations of lengths \<open>ks\<close>, returns the bytes of \<open>B\<close> in the
  order written, as many as the destinations take, and the counts returned add up to
  their number: all of \<open>B\<close> and the length of \<open>B\<close> once the destinations take that
  many. The length of \<open>B\<close> is at most \<open>2^62\<close>, the largest capacity \<^verbatim>\<open>grow\<close> can ask for.
\<close>

theorem write_read_round_trip:
  assumes "binv b0" "Len b0 = 0" "int (length (concat (map written cs))) \<le> 2 ^ 62"
  shows "\<exists>b1. write_all b0 cs = Inr (int (length (concat (map written cs))), b1) \<and>
           Bytes b1 = Inr (concat (map written cs)) \<and>
           (\<forall>ks. \<exists>b2. read_all b1 ks =
                   Inr (take (sum_list ks) (concat (map written cs)),
                        int (min (sum_list ks) (length (concat (map written cs)))), b2))"
proof -
  have "unread b0 = []" using length_unread[OF assms(1)] assms(2) by simp
  moreover from assms obtain b1 where
    w: "write_all b0 cs = Inr (int (length (concat (map written cs))), b1)" and b1: "binv b1"
    and u: "unread b1 = unread b0 @ concat (map written cs)"
    using write_all_props[of b0 cs] by auto
  ultimately have u1: "unread b1 = concat (map written cs)" by simp
  have "\<forall>ks. \<exists>b2. read_all b1 ks =
                   Inr (take (sum_list ks) (concat (map written cs)),
                        int (min (sum_list ks) (length (concat (map written cs)))), b2)"
    using read_all_props[OF b1] u1 by metis
  with w b1 u1 show ?thesis by (simp add: binv_Bytes)
qed

text \<open>
  The round trip on three writes, \<open>hel\<close>, \<open>l\<close> and \<open>o!\<close> into a fresh buffer, read
  back through destinations of lengths 2, 0, 3 and 5.
\<close>

theorem write_read_round_trip_witness:
  "binv (NewBuffer 0) \<and> Len (NewBuffer 0) = 0 \<and>
   int (length (concat (map written
      [CallWriteString ''hel'', CallWriteByte (CHR ''l''), CallWrite ''o!'']))) \<le> 2 ^ 62 \<and>
   (\<exists>b1. write_all (NewBuffer 0)
            [CallWriteString ''hel'', CallWriteByte (CHR ''l''), CallWrite ''o!''] = Inr (6, b1) \<and>
         Bytes b1 = Inr ''hello!'' \<and>
         (\<exists>b2. read_all b1 [2, 0, 3, 5] = Inr (''hello!'', 6, b2)))"
proof -
  let ?cs = "[CallWriteString ''hel'', CallWriteByte (CHR ''l''), CallWrite ''o!'']"
  have h: "binv (NewBuffer 0)" "Len (NewBuffer 0) = 0"
    "int (length (concat (map written ?cs))) \<le> 2 ^ 62"
    by (simp_all add: binv_def NewBuffer_def Len_def cap_def)
  from write_read_round_trip[OF h] obtain b1 where
    w: "write_all (NewBuffer 0) ?cs = Inr (int (length (concat (map written ?cs))), b1)"
    and bts: "Bytes b1 = Inr (concat (map written ?cs))"
    and rd: "\<forall>ks. \<exists>b2. read_all b1 ks =
                   Inr (take (sum_list ks) (concat (map written ?cs)),
                        int (min (sum_list ks) (length (concat (map written ?cs)))), b2)"
    by blast
  from rd obtain b2 where
    "read_all b1 [2, 0, 3, 5] =
       Inr (take (sum_list [2, 0, 3, 5]) (concat (map written ?cs)),
            int (min (sum_list [2, 0, 3, 5]) (length (concat (map written ?cs)))), b2)"
    by blast
  then have "read_all b1 [2, 0, 3, 5] = Inr (''hello!'', 6, b2)" by simp
  moreover have "write_all (NewBuffer 0) ?cs = Inr (6, b1)" using w by simp
  moreover have "Bytes b1 = Inr ''hello!''" using bts by simp
  ultimately show ?thesis using h by blast
qed

subsection \<open>C3: compaction in place\<close>

text \<open>
  C3. Let a buffer have a consumed prefix (\<open>r > 0\<close>) and unread bytes \<open>u\<close>. A write
  of \<open>p\<close> with \<open>length u + length p\<close> at most the capacity returns, leaves the
  capacity as it was (nothing is reallocated), and the unread content afterwards is
  \<open>u\<close> followed by \<open>p\<close>.
\<close>

theorem compaction_in_place:
  assumes "binv b" "0 < r b" "Len b + int (length p) \<le> int (Cap b)"
  shows "\<exists>u b'. Bytes b = Inr u \<and> Write b p = Inr (int (length p), b') \<and>
           WriteString b p = Inr (int (length p), b') \<and>
           Cap b' = Cap b \<and> Bytes b' = Inr (u @ p)"
proof -
  from Write_total_fits[OF assms(1,3)] obtain b' where w: "Write b p = Inr (int (length p), b')" ..
  note p = Write_props[OF assms(1) w]
  have "Cap b' = Cap b" using assms(1,3) w by (rule Write_Cap_fits)
  then show ?thesis using w p assms(1) by (simp add: binv_Bytes WriteString_eq_Write)
qed

text \<open>
  The example of the specification: capacity 8, write \<open>abcdefgh\<close>, read three
  bytes, write \<open>XYZ\<close>; the capacity stays 8 and the content is \<open>defghXYZ\<close>.
\<close>

theorem compaction_in_place_witness:
  "WriteString (NewBuffer 8) ''abcdefgh'' = Inr (8, \<lparr>buf = \<lparr>arr = ''abcdefgh'', len = 8\<rparr>, r = 0\<rparr>) \<and>
   Read \<lparr>buf = \<lparr>arr = ''abcdefgh'', len = 8\<rparr>, r = 0\<rparr> 3 =
     Inr ((''abc'', None), \<lparr>buf = \<lparr>arr = ''abcdefgh'', len = 8\<rparr>, r = 3\<rparr>) \<and>
   binv \<lparr>buf = \<lparr>arr = ''abcdefgh'', len = 8\<rparr>, r = 3\<rparr> \<and>
   0 < r \<lparr>buf = \<lparr>arr = ''abcdefgh'', len = 8\<rparr>, r = 3\<rparr> \<and>
   Len \<lparr>buf = \<lparr>arr = ''abcdefgh'', len = 8\<rparr>, r = 3\<rparr> + int (length ''XYZ'')
     \<le> int (Cap \<lparr>buf = \<lparr>arr = ''abcdefgh'', len = 8\<rparr>, r = 3\<rparr>) \<and>
   (\<exists>b'. WriteString \<lparr>buf = \<lparr>arr = ''abcdefgh'', len = 8\<rparr>, r = 3\<rparr> ''XYZ'' = Inr (3, b') \<and>
         Cap b' = 8 \<and> String b' = Inr ''defghXYZ'')"
proof -
  let ?b = "\<lparr>buf = \<lparr>arr = ''abcdefgh'', len = 8\<rparr>, r = 3\<rparr>"
  have h: "binv ?b" "0 < r ?b" "Len ?b + int (length ''XYZ'') \<le> int (Cap ?b)"
    by (simp_all add: binv_def Len_def Cap_def cap_def)
  have bts: "Bytes ?b = Inr ''defgh''" by (simp add: Bytes_def slice_from_def)
  have c: "Cap ?b = 8" by (simp add: Cap_def cap_def)
  from compaction_in_place[OF h] bts c
  have "\<exists>b'. WriteString ?b ''XYZ'' = Inr (3, b') \<and> Cap b' = 8 \<and> String b' = Inr ''defghXYZ''"
    by (auto simp: String_def)
  moreover have "WriteString (NewBuffer 8) ''abcdefgh'' = Inr (8, \<lparr>buf = \<lparr>arr = ''abcdefgh'', len = 8\<rparr>, r = 0\<rparr>)"
    by (simp add: WriteString_def NewBuffer_def grow_def Reset_def Let_def cap_def append_def)
  moreover have "Read \<lparr>buf = \<lparr>arr = ''abcdefgh'', len = 8\<rparr>, r = 0\<rparr> 3 =
     Inr ((''abc'', None), ?b)"
    by (simp add: Read_def slice_from_def Let_def i64_def)
  ultimately show ?thesis using h by blast
qed

subsection \<open>C6: short writes\<close>

text \<open>
  C6. Let a buffer hold the unread bytes \<open>p\<close>. If the sink accepts \<open>M\<close> of them,
  \<open>0 \<le> M < length p\<close>, and reports no error, \<^verbatim>\<open>WriteTo\<close> returns \<open>M\<close> together with
  \<^verbatim>\<open>io.ErrShortWrite\<close> and the read cursor has advanced by \<open>M\<close>. If \<open>p\<close> is empty,
  \<^verbatim>\<open>WriteTo\<close> returns 0 and no error, and the sink is in the state it was in: it has
  not been called.
\<close>

theorem WriteTo_short_write:
  assumes "binv b" "Bytes b = Inr p"
  shows "(0 \<le> M \<and> M < int (length p) \<and> w st p = ((M, None), st') \<longrightarrow>
            WriteTo b w st = Inr ((M, Some ErrShortWrite), b\<lparr>r := r b + M\<rparr>, st')) \<and>
         (p = [] \<longrightarrow> WriteTo b w st = Inr ((0, None), Reset b, st))"
proof -
  have pu: "p = unread b" using assms by (simp add: binv_Bytes)
  have lu: "int (length p) = int (len (buf b)) - r b"
    using length_unread[OF assms(1)] pu by (simp add: Len_def)
  have e: "p = [] \<longrightarrow> WriteTo b w st = Inr ((0, None), Reset b, st)"
    using lu by (auto simp: WriteTo_def)
  have "WriteTo b w st = Inr ((M, Some ErrShortWrite), b\<lparr>r := r b + M\<rparr>, st')"
    if m: "0 \<le> M" "M < int (length p)" "w st p = ((M, None), st')"
  proof -
    have "i64 (r b + M) = r b + M"
      using m lu assms(1) by (intro i64_id) (simp_all add: binv_def)
    then show ?thesis
      using m lu assms(2) by (cases "M = 0") (simp_all add: WriteTo_def Let_def)
  qed
  with e show ?thesis by blast
qed

text \<open>
  The test of the repository: \<open>hello\<close> in a fresh buffer, written out to a sink
  that takes two bytes at a time; and the same sink offered an empty buffer.
\<close>

theorem WriteTo_short_write_witness:
  "binv \<lparr>buf = \<lparr>arr = ''hello'' @ replicate 3 (CHR 0x00), len = 5\<rparr>, r = 0\<rparr> \<and>
   WriteString (NewBuffer 0) ''hello'' =
     Inr (5, \<lparr>buf = \<lparr>arr = ''hello'' @ replicate 3 (CHR 0x00), len = 5\<rparr>, r = 0\<rparr>) \<and>
   Bytes \<lparr>buf = \<lparr>arr = ''hello'' @ replicate 3 (CHR 0x00), len = 5\<rparr>, r = 0\<rparr>
     = Inr ''hello'' \<and>
   WriteTo \<lparr>buf = \<lparr>arr = ''hello'' @ replicate 3 (CHR 0x00), len = 5\<rparr>, r = 0\<rparr>
       (\<lambda>st p. ((int (min 2 (length p)), None), st @ take 2 p)) [] =
     Inr ((2, Some ErrShortWrite),
          \<lparr>buf = \<lparr>arr = ''hello'' @ replicate 3 (CHR 0x00), len = 5\<rparr>, r = 2\<rparr>, ''he'') \<and>
   Bytes \<lparr>buf = \<lparr>arr = ''hello'' @ replicate 3 (CHR 0x00), len = 5\<rparr>, r = 2\<rparr>
     = Inr ''llo'' \<and>
   WriteTo (NewBuffer 0) (\<lambda>st p. ((int (min 2 (length p)), None), st @ take 2 p)) ''x'' =
     Inr ((0, None), NewBuffer 0, ''x'')"
proof -
  let ?b = "\<lparr>buf = \<lparr>arr = ''hello'' @ replicate 3 (CHR 0x00), len = 5\<rparr>, r = 0\<rparr>"
  let ?w = "\<lambda>st p. ((int (min 2 (length p)), None :: io_error option), st @ take 2 p)"
  have b: "binv ?b" by (simp add: binv_def cap_def)
  have p: "Bytes ?b = Inr ''hello''" by (simp add: Bytes_def slice_from_def)
  have ws: "WriteString (NewBuffer 0) ''hello'' = Inr (5, ?b)"
    by (simp add: WriteString_def NewBuffer_def grow_def Reset_def Let_def cap_def append_def
        i64_def nextPowerOfTwo_def make_slice_def slice_from_def slice_copy_def copy_into_def)
  have "WriteTo ?b ?w [] = Inr ((2, Some ErrShortWrite), ?b\<lparr>r := r ?b + 2\<rparr>, ''he'')"
    using WriteTo_short_write[OF b p, of 2 ?w "[]" "''he''"] by simp
  then have w1: "WriteTo ?b ?w [] = Inr ((2, Some ErrShortWrite), ?b\<lparr>r := 2\<rparr>, ''he'')" by simp
  have b0: "binv (NewBuffer 0)" by (simp add: binv_def NewBuffer_def cap_def)
  have p0: "Bytes (NewBuffer 0) = Inr []" by (simp add: Bytes_def slice_from_def NewBuffer_def)
  have "WriteTo (NewBuffer 0) ?w ''x'' = Inr ((0, None), Reset (NewBuffer 0), ''x'')"
    using WriteTo_short_write[OF b0 p0, of 0 ?w "''x''" "''x''"] by simp
  then have w0: "WriteTo (NewBuffer 0) ?w ''x'' = Inr ((0, None), NewBuffer 0, ''x'')"
    by (simp add: Reset_def NewBuffer_def)
  have "Bytes (?b\<lparr>r := 2\<rparr>) = Inr ''llo''" by (simp add: Bytes_def slice_from_def)
  with b p ws w1 w0 show ?thesis by simp
qed

subsection \<open>C9: the state invariant\<close>

text \<open>
  C9 states that \<open>0 \<le> r \<le> len(buf) \<le> cap(buf)\<close> holds after every sequence of public
  operations. \<^verbatim>\<open>WriteTo\<close> breaks it: it adds the count the sink returns to \<open>r\<close>
  in 64 bits and only then compares \<open>r\<close> with the length. On the buffer of capacity
  8 that holds \<open>abcdefgh\<close> with one byte read, a sink that reports \<^verbatim>\<open>math.MaxInt64\<close>
  bytes written makes the sum wrap: \<^verbatim>\<open>WriteTo\<close> returns with \<open>r = -2^63\<close>.
\<close>

theorem WriteTo_overflow_breaks_invariant:
  "run_ops (NewBuffer 8)
     [OpWriteString ''abcdefgh'', OpRead 1 :: (unit, unit) buffer_op] =
     Some (Inr \<lparr>buf = \<lparr>arr = ''abcdefgh'', len = 8\<rparr>, r = 1\<rparr>) \<and>
   WriteTo \<lparr>buf = \<lparr>arr = ''abcdefgh'', len = 8\<rparr>, r = 1\<rparr> overclaimingWriter () =
     Inr ((9223372036854775807, Some ErrShortWrite),
          \<lparr>buf = \<lparr>arr = ''abcdefgh'', len = 8\<rparr>, r = - 9223372036854775808\<rparr>, ()) \<and>
   run_ops (NewBuffer 8)
     [OpWriteString ''abcdefgh'', OpRead 1, OpWriteTo overclaimingWriter () :: (unit, unit) buffer_op] =
     Some (Inr \<lparr>buf = \<lparr>arr = ''abcdefgh'', len = 8\<rparr>, r = - 9223372036854775808\<rparr>) \<and>
   \<not> 0 \<le> r \<lparr>buf = \<lparr>arr = ''abcdefgh'', len = 8\<rparr>, r = - 9223372036854775808\<rparr>"
  by (simp add: NewBuffer_def WriteString_def Read_def WriteTo_def Bytes_def grow_def Let_def
      cap_def i64_def Reset_def append_def slice_from_def overclaimingWriter_def)

text \<open>
  What does hold: with sinks and sources that keep the contracts of \<^verbatim>\<open>io.Writer\<close> and
  \<^verbatim>\<open>io.Reader\<close> (the count is at most the length of the slice offered) and 64-bit
  \<^verbatim>\<open>int\<close> arguments, the relation holds after any sequence of operations on a buffer
  made by \<^verbatim>\<open>NewBuffer\<close>.
\<close>

theorem state_invariant:
  assumes "is_int64 c" "\<forall>x\<in>set ops. op_ok x" "run_ops (NewBuffer c) ops = Some (Inr b)"
  shows "0 \<le> r b \<and> r b \<le> int (len (buf b)) \<and> len (buf b) \<le> cap (buf b)"
proof -
  have "binv (NewBuffer c)" "undrained (NewBuffer c)"
    using NewBuffer_inv[OF assms(1)] by simp_all
  with assms(2,3) have "binv b" using run_ops_inv by blast
  then show ?thesis by (simp add: binv_def)
qed

text \<open>
  A run through the operations on a buffer of capacity 16, with the short writer and
  the string reader of the tests; the last step, \<^verbatim>\<open>Grow(4)\<close>, compacts.
\<close>

theorem state_invariant_witness:
  "is_int64 16 \<and>
   list_all op_ok
     [OpWriteString ''abcdefgh'', OpRead 3, OpWrite ''XY'', OpWriteByte (CHR ''Z''),
      OpWriteTo (shortWriter 2) [], OpReadFrom 5 stringsReader ''more'', OpReserve 1,
      OpGrow 4] \<and>
   run_ops (NewBuffer 16)
     [OpWriteString ''abcdefgh'', OpRead 3, OpWrite ''XY'', OpWriteByte (CHR ''Z''),
      OpWriteTo (shortWriter 2) [], OpReadFrom 5 stringsReader ''more'', OpReserve 1,
      OpGrow 4] =
     Some (Inr \<lparr>buf = \<lparr>arr = ''fghXYZmore'' @ [CHR 0x00] @ ''more'' @ [CHR 0x00], len = 11\<rparr>,
               r = 0\<rparr>) \<and>
   0 \<le> r \<lparr>buf = \<lparr>arr = ''fghXYZmore'' @ [CHR 0x00] @ ''more'' @ [CHR 0x00], len = 11\<rparr>,
               r = 0\<rparr> \<and>
   r \<lparr>buf = \<lparr>arr = ''fghXYZmore'' @ [CHR 0x00] @ ''more'' @ [CHR 0x00], len = 11\<rparr>, r = 0\<rparr>
     \<le> int (len (buf \<lparr>buf = \<lparr>arr = ''fghXYZmore'' @ [CHR 0x00] @ ''more'' @ [CHR 0x00],
                             len = 11\<rparr>, r = 0\<rparr>)) \<and>
   len (buf \<lparr>buf = \<lparr>arr = ''fghXYZmore'' @ [CHR 0x00] @ ''more'' @ [CHR 0x00], len = 11\<rparr>,
             r = 0\<rparr>)
     \<le> cap (buf \<lparr>buf = \<lparr>arr = ''fghXYZmore'' @ [CHR 0x00] @ ''more'' @ [CHR 0x00],
                        len = 11\<rparr>, r = 0\<rparr>)"
proof -
  let ?ops = "[OpWriteString ''abcdefgh'', OpRead 3, OpWrite ''XY'', OpWriteByte (CHR ''Z''),
      OpWriteTo (shortWriter 2) [], OpReadFrom 5 stringsReader ''more'', OpReserve 1,
      OpGrow 4]"
  let ?b = "\<lparr>buf = \<lparr>arr = ''fghXYZmore'' @ [CHR 0x00] @ ''more'' @ [CHR 0x00], len = 11\<rparr>,
               r = 0\<rparr>"
  have i: "is_int64 16" by (simp add: is_int64_def)
  have ok: "\<forall>x\<in>set ?ops. op_ok x"
    by (simp add: shortWriter_ok stringsReader_ok is_int64_def)
  have run: "run_ops (NewBuffer 16) ?ops = Some (Inr ?b)"
    by code_simp
  from state_invariant[OF i ok run] i ok run show ?thesis
    by (simp add: list_all_iff)
qed

subsection \<open>C10: the Drained state is not observable\<close>

text \<open>
  C10 states that every operation that consumes the last unread byte collapses the
  buffer to the Empty state. \<^verbatim>\<open>WriteTo\<close> does not when the count of the sink makes
  \<open>r\<close> wrap: on the buffer of capacity 8 that holds \<open>abcdefgh\<close> with one byte read,
  the sink that reports \<^verbatim>\<open>math.MaxInt64\<close> bytes written has taken all seven unread
  bytes and more, yet \<^verbatim>\<open>WriteTo\<close> returns with the length still 8 and \<open>r = -2^63\<close>;
  \<^verbatim>\<open>Read\<close> and \<^verbatim>\<open>Bytes\<close> panic on that buffer.
\<close>

theorem WriteTo_overflow_leaves_uncollapsed:
  "Len \<lparr>buf = \<lparr>arr = ''abcdefgh'', len = 8\<rparr>, r = 1\<rparr> \<le> 9223372036854775807 \<and>
   map_sum id (fst \<circ> snd)
     (WriteTo \<lparr>buf = \<lparr>arr = ''abcdefgh'', len = 8\<rparr>, r = 1\<rparr> overclaimingWriter ()) =
     Inr \<lparr>buf = \<lparr>arr = ''abcdefgh'', len = 8\<rparr>, r = - 9223372036854775808\<rparr> \<and>
   len (buf \<lparr>buf = \<lparr>arr = ''abcdefgh'', len = 8\<rparr>, r = - 9223372036854775808\<rparr>) \<noteq> 0 \<and>
   Read \<lparr>buf = \<lparr>arr = ''abcdefgh'', len = 8\<rparr>, r = - 9223372036854775808\<rparr> 1 =
     Inl SliceBoundsOutOfRange \<and>
   Bytes \<lparr>buf = \<lparr>arr = ''abcdefgh'', len = 8\<rparr>, r = - 9223372036854775808\<rparr> =
     Inl SliceBoundsOutOfRange"
  by (simp add: Read_def WriteTo_def Bytes_def Let_def Len_def
      cap_def i64_def Reset_def slice_from_def overclaimingWriter_def)

text \<open>
  What does hold, with sinks and sources that keep their contracts: after any sequence
  of public operations on a buffer made by \<^verbatim>\<open>NewBuffer\<close> the read cursor equals the
  length only if both are zero. A \<^verbatim>\<open>Read\<close> into a non-empty destination that takes
  all unread bytes (or finds none) returns them and leaves cursor and length zero with
  the capacity retained; \<^verbatim>\<open>WriteTo\<close> always returns, and when the sink has accepted
  all unread bytes (or there were none) it leaves cursor and length zero with the
  capacity retained.
\<close>

theorem drained_never_observable:
  assumes "is_int64 c" "\<forall>x\<in>set ops. op_ok x" "run_ops (NewBuffer c) ops = Some (Inr b)"
  shows "(r b = int (len (buf b)) \<longrightarrow> r b = 0 \<and> len (buf b) = 0) \<and>
         (\<forall>k. 0 < k \<and> Len b \<le> int k \<longrightarrow>
            (\<exists>e b'. Read b k = Inr ((unread b, e), b') \<and>
                    r b' = 0 \<and> len (buf b') = 0 \<and> Cap b' = Cap b)) \<and>
         (\<forall>(w :: 'v writer) st. \<exists>res b' st'. WriteTo b w st = Inr (res, b', st')) \<and>
         (\<forall>(w :: 'v writer) st n e b' st'.
            writer_ok w \<and> Len b \<le> n \<and> WriteTo b w st = Inr ((n, e), b', st') \<longrightarrow>
            r b' = 0 \<and> len (buf b') = 0 \<and> Cap b' = Cap b)"
proof -
  have "binv (NewBuffer c)" "undrained (NewBuffer c)"
    using NewBuffer_inv[OF assms(1)] by simp_all
  with assms(2,3) have b: "binv b" "undrained b" using run_ops_inv by blast+
  have lu: "int (length (unread b)) = Len b" using b(1) by (rule length_unread)
  have 1: "r b = int (len (buf b)) \<longrightarrow> r b = 0 \<and> len (buf b) = 0"
    using b(2) by (auto simp: undrained_def)
  have 2: "\<exists>e b'. Read b k = Inr ((unread b, e), b') \<and>
                    r b' = 0 \<and> len (buf b') = 0 \<and> Cap b' = Cap b"
    if k: "0 < k" "Len b \<le> int k" for k
  proof -
    from Read_eq[OF b(1), of k] obtain e b' where
      rd: "Read b k = Inr ((take k (unread b), e), b')" and b': "binv b'"
      and u: "unread b' = drop k (unread b)" and c: "Cap b' = Cap b"
      and ud: "0 < k \<longrightarrow> undrained b'" by blast
    have le: "length (unread b) \<le> k" using lu k(2) by simp
    then have "unread b' = []" using u by simp
    with b' ud k(1) have "r b' = 0 \<and> len (buf b') = 0" by (intro empty_of_no_unread) simp_all
    with rd c le show ?thesis by simp
  qed
  have 3: "\<exists>res b' st'. WriteTo b w st = Inr (res, b', st')" for w :: "'v writer" and st
    using b(1) by (rule WriteTo_total)
  have 4: "r b' = 0 \<and> len (buf b') = 0 \<and> Cap b' = Cap b"
    if h: "writer_ok w" "Len b \<le> n" "WriteTo b w st = Inr ((n, e), b', st')"
    for w :: "'v writer" and st n e b' st'
  proof -
    from WriteTo_props[OF h(1) b(1) h(3)]
    have p: "binv b'" "undrained b'" "Cap b' = Cap b" "unread b' = drop (nat n) (unread b)"
      by simp_all
    have "length (unread b) \<le> nat n" using lu h(2) by simp
    then have "unread b' = []" using p(4) by simp
    with p(1,2) have "r b' = 0 \<and> len (buf b') = 0" by (intro empty_of_no_unread)
    with p(3) show ?thesis by simp
  qed
  have c2: "\<forall>k. 0 < k \<and> Len b \<le> int k \<longrightarrow>
            (\<exists>e b'. Read b k = Inr ((unread b, e), b') \<and>
                    r b' = 0 \<and> len (buf b') = 0 \<and> Cap b' = Cap b)"
    by (intro allI impI) (elim conjE, rule 2)
  have c3: "\<forall>(w :: 'v writer) st. \<exists>res b' st'. WriteTo b w st = Inr (res, b', st')"
    by (intro allI) (rule 3)
  have c4: "\<forall>(w :: 'v writer) st n e b' st'.
            writer_ok w \<and> Len b \<le> n \<and> WriteTo b w st = Inr ((n, e), b', st') \<longrightarrow>
            r b' = 0 \<and> len (buf b') = 0 \<and> Cap b' = Cap b"
    by (intro allI impI) (elim conjE, rule 4)
  show ?thesis by (rule conjI[OF 1 conjI[OF c2 conjI[OF c3 c4]]])
qed

text \<open>
  The buffer of capacity 8 holding \<open>abcdefgh\<close> with three bytes read: reading the
  last five bytes, or writing them out, leaves it empty with capacity 8.
\<close>

theorem drained_never_observable_witness:
  "is_int64 8 \<and>
   list_all op_ok [OpWriteString ''abcdefgh'', OpRead 3 :: (string, string) buffer_op] \<and>
   run_ops (NewBuffer 8) [OpWriteString ''abcdefgh'', OpRead 3 :: (string, string) buffer_op] =
     Some (Inr \<lparr>buf = \<lparr>arr = ''abcdefgh'', len = 8\<rparr>, r = 3\<rparr>) \<and>
   Read \<lparr>buf = \<lparr>arr = ''abcdefgh'', len = 8\<rparr>, r = 3\<rparr> 5 =
     Inr ((''defgh'', None), \<lparr>buf = \<lparr>arr = ''abcdefgh'', len = 0\<rparr>, r = 0\<rparr>) \<and>
   writer_ok (shortWriter 5) \<and>
   WriteTo \<lparr>buf = \<lparr>arr = ''abcdefgh'', len = 8\<rparr>, r = 3\<rparr> (shortWriter 5) [] =
     Inr ((5, None), \<lparr>buf = \<lparr>arr = ''abcdefgh'', len = 0\<rparr>, r = 0\<rparr>, ''defgh'') \<and>
   (\<exists>e b'. Read \<lparr>buf = \<lparr>arr = ''abcdefgh'', len = 8\<rparr>, r = 3\<rparr> 5 = Inr ((''defgh'', e), b') \<and>
           r b' = 0 \<and> len (buf b') = 0 \<and> Cap b' = 8)"
proof -
  let ?ops = "[OpWriteString ''abcdefgh'', OpRead 3 :: (string, string) buffer_op]"
  let ?b = "\<lparr>buf = \<lparr>arr = ''abcdefgh'', len = 8\<rparr>, r = 3\<rparr>"
  have i: "is_int64 8" by (simp add: is_int64_def)
  have ok: "\<forall>x\<in>set ?ops. op_ok x" by simp
  have run: "run_ops (NewBuffer 8) ?ops = Some (Inr ?b)" by code_simp
  have rd: "Read ?b 5 = Inr ((''defgh'', None), \<lparr>buf = \<lparr>arr = ''abcdefgh'', len = 0\<rparr>, r = 0\<rparr>)"
    by code_simp
  have wt: "WriteTo ?b (shortWriter 5) [] =
     Inr ((5, None), \<lparr>buf = \<lparr>arr = ''abcdefgh'', len = 0\<rparr>, r = 0\<rparr>, ''defgh'')"
    by code_simp
  have u: "unread ?b = ''defgh''" "Len ?b = 5" "Cap ?b = 8"
    by (simp_all add: unread_def Len_def Cap_def cap_def)
  note d = drained_never_observable[OF i ok run, where ?'v = string]
  have "\<forall>k. 0 < k \<and> Len ?b \<le> int k \<longrightarrow>
            (\<exists>e b'. Read ?b k = Inr ((unread ?b, e), b') \<and>
                    r b' = 0 \<and> len (buf b') = 0 \<and> Cap b' = Cap ?b)"
    by (rule d[THEN conjunct2, THEN conjunct1])
  then have "0 < (5::nat) \<and> Len ?b \<le> int 5 \<longrightarrow>
            (\<exists>e b'. Read ?b 5 = Inr ((unread ?b, e), b') \<and>
                    r b' = 0 \<and> len (buf b') = 0 \<and> Cap b' = Cap ?b)" by (rule spec)
  moreover have "0 < (5::nat) \<and> Len ?b \<le> int 5" by (simp add: u(2))
  ultimately have "\<exists>e b'. Read ?b 5 = Inr ((unread ?b, e), b') \<and>
                    r b' = 0 \<and> len (buf b') = 0 \<and> Cap b' = Cap ?b" by (rule mp)
  then have "\<exists>e b'. Read ?b 5 = Inr ((''defgh'', e), b') \<and>
                    r b' = 0 \<and> len (buf b') = 0 \<and> Cap b' = 8"
    by (simp only: u)
  moreover have "list_all op_ok ?ops" by simp
  moreover note i run rd wt shortWriter_ok[of 5]
  ultimately show ?thesis by (intro conjI)
qed

section \<open>Lemmas on \<^verbatim>\<open>pool.go\<close>\<close>

lemma uniq_loop_props:
  assumes "uniq \<noteq> []" "sorted (uniq @ xs)"
  shows "uniq_loop uniq xs \<noteq> [] \<and> sorted (uniq_loop uniq xs) \<and>
         set (uniq_loop uniq xs) = set uniq \<union> set xs \<and> hd (uniq_loop uniq xs) = hd uniq"
  using assms
proof (induction xs arbitrary: uniq)
  case Nil
  then show ?case by simp
next
  case (Cons x xs)
  show ?case
  proof (cases "x \<noteq> last uniq")
    case True
    have "sorted ((uniq @ [x]) @ xs)" using Cons.prems(2) by simp
    from Cons.IH[OF _ this] True Cons.prems(1) show ?thesis by auto
  next
    case False
    have "sorted (uniq @ xs)" using Cons.prems(2) by (auto simp: sorted_append)
    from Cons.IH[OF Cons.prems(1) this] False Cons.prems(1) show ?thesis
      by (auto simp: last_in_set)
  qed
qed

lemma normalizeSizes_props:
  "sorted (normalizeSizes s) \<and> (\<forall>v\<in>set (normalizeSizes s). 0 < v)"
proof (cases "filter (\<lambda>v. v > 0) s = []")
  case True
  then show ?thesis by (simp add: normalizeSizes_def)
next
  case False
  define f where "f = sort (filter (\<lambda>v. v > 0) s)"
  have f: "f \<noteq> []" "sorted f" "set f = {v \<in> set s. 0 < v}"
    using False by (auto simp: f_def) (metis length_0_conv length_sort)
  have t: "take 1 f \<noteq> []" "take 1 f @ drop 1 f = f" using f(1) by simp_all
  then have "sorted (take 1 f @ drop 1 f)" using f(2) by simp
  from uniq_loop_props[OF t(1) this]
  have "sorted (uniq_loop (take 1 f) (drop 1 f))"
    "set (uniq_loop (take 1 f) (drop 1 f)) = set f"
    by (simp_all add: set_append[symmetric] t(2) del: set_append)
  then show ?thesis using False f(3) by (auto simp: normalizeSizes_def Let_def f_def)
qed

lemma defaultBucketSizes_props:
  "defaultBucketSizes \<noteq> [] \<and> sorted defaultBucketSizes \<and> (\<forall>v\<in>set defaultBucketSizes. 0 < v)"
  by (simp add: defaultBucketSizes_def)

lemma chooseCap_loop_Some:
  "chooseCap_loop szs t = Some s \<Longrightarrow>
   s \<in> set szs \<and> t \<le> s \<and> (sorted szs \<longrightarrow> (\<forall>s'\<in>set szs. t \<le> s' \<longrightarrow> s \<le> s'))"
  by (induction szs) (auto split: if_splits)

lemma chooseCap_loop_None: "chooseCap_loop szs t = None \<longleftrightarrow> (\<forall>s\<in>set szs. s < t)"
  by (induction szs) auto

lemma chooseCap_total: "szs \<noteq> [] \<Longrightarrow> \<exists>c. chooseCap szs t = Inr c \<and> c \<in> set szs"
  by (cases "chooseCap_loop szs t")
     (auto simp: chooseCap_def dest: chooseCap_loop_Some)

lemma constructor_total:
  "\<exists>p. NewBufferPoolWithOptions opts = Inr p \<and> pool_wf p \<and> stored_reset p \<and> classified p"
proof -
  define szs where "szs = (let z = normalizeSizes (BucketSizes opts)
                            in if length z = 0 then defaultBucketSizes else z)"
  have szs: "szs \<noteq> []" "sorted szs" "\<forall>v\<in>set szs. 0 < v"
    using normalizeSizes_props[of "BucketSizes opts"] defaultBucketSizes_props
    by (auto simp: szs_def Let_def)
  from chooseCap_total[OF szs(1), of "InitialCap opts"] obtain c where
    c: "chooseCap szs (InitialCap opts) = Inr c" by blast
  have "0 < szs ! 0" using szs(1,3) by (cases szs) auto
  then have sl: "0 < (if SmallLimit opts > 0 then SmallLimit opts else minInt 256 (szs ! 0))"
    by (simp add: minInt_def)
  show ?thesis
    using c szs sl unfolding NewBufferPoolWithOptions_def szs_def[symmetric, unfolded Let_def] Let_def
    by (simp add: pool_wf_def stored_reset_def classified_def list_all_iff)
qed

lemma bucketIndex_loop_Some:
  "bucketIndex_loop ss sz i = Some j \<Longrightarrow>
   i \<le> j \<and> j < i + int (length ss) \<and> sz \<le> ss ! nat (j - i)"
proof (induction ss arbitrary: i)
  case Nil
  then show ?case by simp
next
  case (Cons s ss)
  show ?case
  proof (cases "sz \<le> s")
    case True
    with Cons.prems show ?thesis by simp
  next
    case False
    with Cons.prems have "bucketIndex_loop ss sz (i + 1) = Some j" by simp
    from Cons.IH[OF this] have j: "i + 1 \<le> j" "j < i + 1 + int (length ss)"
      "sz \<le> ss ! nat (j - (i + 1))" by simp_all
    have "nat (j - i) = Suc (nat (j - (i + 1)))" using j(1) by simp
    with j show ?thesis by simp
  qed
qed

lemma bucketIndex_range:
  "sizes p \<noteq> [] \<Longrightarrow> 0 \<le> bucketIndex p sz \<and> bucketIndex p sz < int (length (sizes p))"
  by (cases "bucketIndex_loop (sizes p) sz 0")
     (auto simp: bucketIndex_def dest: bucketIndex_loop_Some)

lemma bucketIndex_class:
  assumes "0 < sz" "Suc (nat (bucketIndex p sz)) < length (sizes p)"
  shows "sz \<le> sizes p ! nat (bucketIndex p sz)"
proof (cases "bucketIndex_loop (sizes p) sz 0")
  case None
  with assms show ?thesis by (simp add: bucketIndex_def)
next
  case (Some j)
  from bucketIndex_loop_Some[OF Some] Some assms(1) show ?thesis
    by (simp add: bucketIndex_def)
qed

lemma pool_Get_props:
  assumes "pool_Get items pick = (got, rest)" "list_all P items"
  shows "list_all P rest \<and> (\<forall>b. got = Some b \<longrightarrow> P b)"
  using assms
  by (auto simp: pool_Get_def list_all_iff split: option.splits if_splits
      dest!: in_set_takeD in_set_dropD)

lemma is_reset_NewBuffer: "is_reset (NewBuffer c)"
  by (simp add: is_reset_def NewBuffer_def Let_def)

lemma is_reset_Reset: "is_reset (Reset b)"
  by (simp add: is_reset_def Reset_def)

lemma draw_grow:
  assumes "is_reset b" "n \<le> 4611686018427387904"
  shows "\<exists>b'. (if n > int (cap (buf b)) then grow b (i64 (n - int (len (buf b)))) else Inr b)
            = Inr b' \<and> n \<le> int (Cap b')"
proof (cases "n > int (cap (buf b))")
  case False
  then show ?thesis by (simp add: Cap_def)
next
  case True
  have n0: "0 < n" using True by linarith
  have i: "i64 (n - int (len (buf b))) = n"
    using assms n0 by (simp add: is_reset_def i64_id)
  have bi: "binv b" using assms True by (simp add: binv_def is_reset_def)
  have L: "Len b = 0" using assms(1) by (simp add: Len_def is_reset_def)
  from grow_total[OF bi, of n] assms(2) L obtain b' where g: "grow b n = Inr b'" by auto
  have "int (len (buf b')) + n \<le> int (cap (buf b'))"
    using bi n0 _ g by (rule grow_room) (simp add: L assms(2)[THEN order_trans])
  then have "n \<le> int (Cap b')" by (simp add: Cap_def)
  with True g i show ?thesis by simp
qed

lemma getSized_cases:
  assumes "getSized p pick n0 = Inr (b, p')"
  shows "(\<exists>rest b0. pool_Get (smallPool p) pick = (Some b0, rest) \<and> p' = p\<lparr>smallPool := rest\<rparr>) \<or>
         p' = p\<lparr>allocs := i64 (allocs p + 1)\<rparr> \<or>
         (\<exists>idx rest b0. idx < length (buckets p) \<and>
            pool_Get (buckets p ! idx) pick = (Some b0, rest) \<and>
            p' = p\<lparr>buckets := (buckets p)[idx := rest]\<rparr>)"
proof -
  define n where "n = (if n0 < 0 then 0 else n0)"
  show ?thesis
  proof (cases "n \<le> smallLimit p")
    case True
    obtain got rest where pg: "pool_Get (smallPool p) pick = (got, rest)" by (metis surj_pair)
    show ?thesis
      using assms True pg unfolding getSized_def n_def[symmetric] Let_def
      by (cases got) (auto split: sum.splits if_splits)
  next
    case False
    define idx where "idx = bucketIndex p n"
    have ok: "\<not> (idx < 0 \<or> idx \<ge> int (length (buckets p)))"
      using assms False unfolding getSized_def n_def[symmetric] Let_def idx_def[symmetric]
      by (auto split: if_splits)
    obtain got rest where pg: "pool_Get (buckets p ! nat idx) pick = (got, rest)"
      by (metis surj_pair)
    have "nat idx < length (buckets p)" using ok by linarith
    then show ?thesis
      using assms False pg ok unfolding getSized_def n_def[symmetric] Let_def idx_def[symmetric]
      by (cases got) (auto split: sum.splits if_splits)
  qed
qed

lemma getSized_inv:
  assumes "pool_wf p" "stored_reset p" "classified p" "getSized p pick n0 = Inr (b, p')"
  shows "pool_wf p' \<and> stored_reset p' \<and> classified p'"
proof -
  from getSized_cases[OF assms(4)]
  consider (small_hit) rest b0 where "pool_Get (smallPool p) pick = (Some b0, rest)"
      "p' = p\<lparr>smallPool := rest\<rparr>"
    | (miss) "p' = p\<lparr>allocs := i64 (allocs p + 1)\<rparr>"
    | (bucket_hit) idx rest b0 where "idx < length (buckets p)"
      "pool_Get (buckets p ! idx) pick = (Some b0, rest)"
      "p' = p\<lparr>buckets := (buckets p)[idx := rest]\<rparr>"
    by blast
  then show ?thesis
  proof cases
    case small_hit
    have "list_all is_reset rest"
      using pool_Get_props[OF small_hit(1)] assms(2) by (simp add: stored_reset_def)
    with assms(1-3) show ?thesis
      by (simp add: small_hit(2) pool_wf_def stored_reset_def classified_def)
  next
    case miss
    with assms(1-3) show ?thesis
      by (simp add: pool_wf_def stored_reset_def classified_def)
  next
    case bucket_hit
    have r1: "list_all is_reset rest"
      using pool_Get_props[OF bucket_hit(2), of is_reset] assms(2) nth_mem[OF bucket_hit(1)]
      by (simp add: stored_reset_def list_all_iff)
    have r2: "list_all P rest" if "list_all P (buckets p ! idx)" for P
      using pool_Get_props[OF bucket_hit(2) that] by simp
    have sr: "stored_reset p'"
      using assms(2) r1 unfolding stored_reset_def bucket_hit(3)
      by (auto simp: list_all_iff dest!: set_update_subset_insert[THEN subsetD])
    have cl: "classified p'"
      unfolding classified_def bucket_hit(3)
    proof (intro allI impI)
      fix i
      assume a: "Suc i < length (sizes (p\<lparr>buckets := (buckets p)[idx := rest]\<rparr>))"
        "i < length (buckets (p\<lparr>buckets := (buckets p)[idx := rest]\<rparr>))"
      then have o: "list_all (\<lambda>b. int (Cap b) \<le> sizes p ! i) (buckets p ! i)"
        using assms(3) by (simp add: classified_def)
      show "list_all (\<lambda>b. int (Cap b) \<le> sizes (p\<lparr>buckets := (buckets p)[idx := rest]\<rparr>) ! i)
              (buckets (p\<lparr>buckets := (buckets p)[idx := rest]\<rparr>) ! i)"
      proof (cases "i = idx")
        case True
        with o r2 bucket_hit(1) show ?thesis by simp
      next
        case False
        with o show ?thesis by simp
      qed
    qed
    have "pool_wf p'" using assms(1) by (simp add: bucket_hit(3) pool_wf_def)
    with sr cl show ?thesis by simp
  qed
qed

lemma getSized_total:
  assumes "pool_wf p" "stored_reset p" "n0 \<le> 4611686018427387904"
  shows "\<exists>b p'. getSized p pick n0 = Inr (b, p') \<and> n0 \<le> int (Cap b)"
proof -
  define n where "n = (if n0 < 0 then 0 else n0)"
  have n: "n \<le> 4611686018427387904" "n0 \<le> n" using assms(3) by (simp_all add: n_def)
  show ?thesis
  proof (cases "n \<le> smallLimit p")
    case True
    obtain got rest where pg: "pool_Get (smallPool p) pick = (got, rest)" by (metis surj_pair)
    define b0 where "b0 = (case got of Some b \<Rightarrow> b | None \<Rightarrow> NewBuffer (smallLimit p))"
    have "is_reset b0"
      using pool_Get_props[OF pg, of is_reset] assms(2) is_reset_NewBuffer
      by (auto simp: b0_def stored_reset_def split: option.splits)
    from draw_grow[OF this n(1)] obtain b' where
      g: "(if n > int (cap (buf b0)) then grow b0 (i64 (n - int (len (buf b0)))) else Inr b0) = Inr b'"
      and c: "n \<le> int (Cap b')" by blast
    have "\<exists>p'. getSized p pick n0 = Inr (b', p')"
      using True pg g[unfolded b0_def] unfolding getSized_def n_def[symmetric] Let_def
      by (cases got) (simp_all split: if_splits)
    with c n(2) show ?thesis by force
  next
    case False
    define idx where "idx = bucketIndex p n"
    have ok: "0 \<le> idx" "idx < int (length (buckets p))" "idx < int (length (sizes p))"
      using bucketIndex_range[of p n] assms(1) by (simp_all add: idx_def pool_wf_def)
    obtain got rest where pg: "pool_Get (buckets p ! nat idx) pick = (got, rest)"
      by (metis surj_pair)
    define b0 where "b0 = (case got of Some b \<Rightarrow> b | None \<Rightarrow> NewBuffer (sizes p ! nat idx))"
    have "nat idx < length (buckets p)" using ok by linarith
    then have "buckets p ! nat idx \<in> set (buckets p)" by (rule nth_mem)
    then have "list_all is_reset (buckets p ! nat idx)"
      using assms(2) by (simp add: stored_reset_def list_all_iff)
    then have "is_reset b0"
      using pool_Get_props[OF pg, of is_reset] is_reset_NewBuffer
      by (auto simp: b0_def split: option.splits)
    from draw_grow[OF this n(1)] obtain b' where
      g: "(if n > int (cap (buf b0)) then grow b0 (i64 (n - int (len (buf b0)))) else Inr b0) = Inr b'"
      and c: "n \<le> int (Cap b')" by blast
    have "\<exists>p'. getSized p pick n0 = Inr (b', p')"
      using False pg g[unfolded b0_def] ok
      unfolding getSized_def n_def[symmetric] Let_def idx_def[symmetric]
      by (cases got) (simp_all split: if_splits)
    with c n(2) show ?thesis by force
  qed
qed

lemma percentile_loop_Some:
  "percentile_loop cs t c i = Some j \<Longrightarrow> i \<le> j \<and> j < i + length cs"
proof (induction cs arbitrary: c i)
  case Nil
  then show ?case by simp
next
  case (Cons a cs)
  show ?case
  proof (cases "t \<le> i64 (c + a)")
    case True
    with Cons.prems show ?thesis by (simp add: Let_def)
  next
    case False
    with Cons.prems have "percentile_loop cs t (i64 (c + a)) (Suc i) = Some j"
      by (simp add: Let_def)
    from Cons.IH[OF this] show ?thesis by simp
  qed
qed

lemma call_metrics_frame:
  "sizes (call_metrics p) = sizes p \<and> buckets (call_metrics p) = buckets p \<and>
   smallPool (call_metrics p) = smallPool p \<and> smallLimit (call_metrics p) = smallLimit p \<and>
   observeEvery (call_metrics p) = observeEvery p \<and>
   bucketHits (call_metrics p) = bucketHits p \<and> defaultCap (call_metrics p) = defaultCap p \<and>
   calibrations (call_metrics p) = calibrations p"
  by (simp add: call_metrics_def)

lemma recalibratePercentile_frame:
  assumes "recalibratePercentile p = Inr p'"
  shows "sizes p' = sizes p \<and> buckets p' = buckets p \<and> smallPool p' = smallPool p \<and>
         smallLimit p' = smallLimit p \<and> observeEvery p' = observeEvery p \<and>
         length (bucketHits p') = length (bucketHits p)"
  using assms
  by (auto simp: recalibratePercentile_def Let_def call_metrics_frame
      split: if_splits option.splits)

lemma recalibratePercentile_total:
  assumes "length (bucketHits p) \<le> length (sizes p)"
  shows "\<exists>p'. recalibratePercentile p = Inr p'"
proof -
  show ?thesis
    using assms
    by (auto simp: recalibratePercentile_def Let_def split: option.splits
        dest!: percentile_loop_Some)
qed

lemma observeSize_frame:
  assumes "observeSize p sz idx = Inr p'"
  shows "sizes p' = sizes p \<and> buckets p' = buckets p \<and> smallPool p' = smallPool p \<and>
         smallLimit p' = smallLimit p \<and> observeEvery p' = observeEvery p \<and>
         length (bucketHits p') = length (bucketHits p)"
proof (cases "sz \<le> 0 \<or> observeEvery p \<le> 0")
  case True
  with assms show ?thesis by (simp add: observeSize_def)
next
  case False
  define p2 where "p2 = p\<lparr>bucketHits :=
                      (bucketHits p)[nat idx := i64 (bucketHits p ! nat idx + 1)],
                    observed := i64 (observed p + 1)\<rparr>"
  from assms False have "p' = p2 \<or> recalibratePercentile p2 = Inr p'"
    by (auto simp: observeSize_def Let_def p2_def split: if_splits)
  then show ?thesis
  proof
    assume "p' = p2" then show ?thesis by (simp add: p2_def)
  next
    assume "recalibratePercentile p2 = Inr p'"
    from recalibratePercentile_frame[OF this] show ?thesis by (simp add: p2_def)
  qed
qed

lemma observeSize_total:
  assumes "length (bucketHits p) = length (sizes p)" "0 \<le> idx" "idx < int (length (sizes p))"
  shows "\<exists>p'. observeSize p sz idx = Inr p'"
proof -
  define p2 where "p2 = p\<lparr>bucketHits :=
                      (bucketHits p)[nat idx := i64 (bucketHits p ! nat idx + 1)],
                    observed := i64 (observed p + 1)\<rparr>"
  have "\<exists>p'. recalibratePercentile p2 = Inr p'"
    using assms(1) by (intro recalibratePercentile_total) (simp add: p2_def)
  then show ?thesis
    using assms by (auto simp: observeSize_def Let_def p2_def)
qed

lemma bucketIndex_puts [simp]: "bucketIndex (p\<lparr>puts := v\<rparr>) sz = bucketIndex p sz"
  by (simp add: bucketIndex_def split: option.splits)

lemma Put_cases:
  assumes "pool_wf p0"
  shows "\<exists>p1. observeSize (p0\<lparr>puts := i64 (puts p0 + 1)\<rparr>) (int (Cap b0))
                 (bucketIndex p0 (int (Cap b0))) = Inr p1 \<and>
           Put p0 (Some b0) =
             Inr (if int (Cap b0) \<le> smallLimit p0
                  then p1\<lparr>smallPool := smallPool p1 @ [Reset b0]\<rparr>
                  else p1\<lparr>buckets := (buckets p1)[nat (bucketIndex p0 (int (Cap b0))) :=
                            buckets p1 ! nat (bucketIndex p0 (int (Cap b0))) @ [Reset b0]]\<rparr>)"
proof -
  define idx where "idx = bucketIndex p0 (int (Cap b0))"
  have ok: "0 \<le> idx" "idx < int (length (sizes p0))"
    using bucketIndex_range[of p0 "int (Cap b0)"] assms by (simp_all add: idx_def pool_wf_def)
  have "\<exists>p1. observeSize (p0\<lparr>puts := i64 (puts p0 + 1)\<rparr>) (int (Cap b0)) idx = Inr p1"
    using assms ok by (intro observeSize_total) (simp_all add: pool_wf_def)
  then obtain p1 where os: "observeSize (p0\<lparr>puts := i64 (puts p0 + 1)\<rparr>) (int (Cap b0)) idx = Inr p1" ..
  from observeSize_frame[OF os] have fr: "buckets p1 = buckets p0" "smallLimit p1 = smallLimit p0"
    by simp_all
  have lb: "\<not> (idx < 0 \<or> int (length (buckets p1)) \<le> idx)"
    using ok assms fr by (simp add: pool_wf_def)
  have c: "cap (buf (Reset b0)) = Cap b0" by (simp add: Reset_def cap_def Cap_def)
  have "Put p0 (Some b0) =
             Inr (if int (Cap b0) \<le> smallLimit p0
                  then p1\<lparr>smallPool := smallPool p1 @ [Reset b0]\<rparr>
                  else p1\<lparr>buckets := (buckets p1)[nat idx := buckets p1 ! nat idx @ [Reset b0]]\<rparr>)"
    by (simp add: Put_def Let_def c idx_def[symmetric] os lb pool_Put_def)
  with os show ?thesis unfolding idx_def by blast
qed

lemma Put_inv:
  assumes "pool_wf p" "stored_reset p" "classified p" "Put p bo = Inr p'"
  shows "pool_wf p' \<and> stored_reset p' \<and> classified p'"
proof (cases bo)
  case None
  with assms show ?thesis by (simp add: Put_def)
next
  case (Some b0)
  define idx where "idx = nat (bucketIndex p (int (Cap b0)))"
  from Put_cases[OF assms(1), of b0] obtain p1 where
    os: "observeSize (p\<lparr>puts := i64 (puts p + 1)\<rparr>) (int (Cap b0))
                 (bucketIndex p (int (Cap b0))) = Inr p1"
    and pe: "Put p (Some b0) =
             Inr (if int (Cap b0) \<le> smallLimit p
                  then p1\<lparr>smallPool := smallPool p1 @ [Reset b0]\<rparr>
                  else p1\<lparr>buckets := (buckets p1)[idx := buckets p1 ! idx @ [Reset b0]]\<rparr>)"
    unfolding idx_def by blast
  from observeSize_frame[OF os] have fr: "sizes p1 = sizes p" "buckets p1 = buckets p"
    "smallPool p1 = smallPool p" "smallLimit p1 = smallLimit p" "observeEvery p1 = observeEvery p"
    "length (bucketHits p1) = length (bucketHits p)" by simp_all
  have wf1: "pool_wf p1" using assms(1) fr by (simp add: pool_wf_def)
  have sr1: "stored_reset p1" using assms(2) fr by (simp add: stored_reset_def)
  have cl1: "classified p1" using assms(3) fr by (simp add: classified_def)
  show ?thesis
  proof (cases "int (Cap b0) \<le> smallLimit p")
    case True
    with pe assms(4) Some have "p' = p1\<lparr>smallPool := smallPool p1 @ [Reset b0]\<rparr>" by simp
    with wf1 sr1 cl1 show ?thesis
      by (simp add: pool_wf_def stored_reset_def classified_def is_reset_Reset)
  next
    case False
    with pe assms(4) Some
    have p': "p' = p1\<lparr>buckets := (buckets p1)[idx := buckets p1 ! idx @ [Reset b0]]\<rparr>" by simp
    have pos: "0 < int (Cap b0)" using False assms(1) by (simp add: pool_wf_def)
    have "0 \<le> bucketIndex p (int (Cap b0))"
      "bucketIndex p (int (Cap b0)) < int (length (sizes p))"
      using bucketIndex_range[of p "int (Cap b0)"] assms(1) by (simp_all add: pool_wf_def)
    then have "nat (bucketIndex p (int (Cap b0))) < length (sizes p)" by linarith
    then have il: "idx < length (buckets p1)"
      using assms(1) fr by (simp add: idx_def pool_wf_def)
    have wf: "pool_wf p'" using wf1 by (simp add: p' pool_wf_def)
    have "list_all is_reset (buckets p1 ! idx)"
      using sr1 nth_mem[OF il] by (simp add: stored_reset_def list_all_iff)
    then have sr: "stored_reset p'"
      using sr1 unfolding stored_reset_def p'
      by (auto simp: list_all_iff is_reset_Reset dest!: set_update_subset_insert[THEN subsetD])
    have cl: "classified p'"
      unfolding classified_def p'
    proof (intro allI impI)
      fix i
      let ?q = "p1\<lparr>buckets := (buckets p1)[idx := buckets p1 ! idx @ [Reset b0]]\<rparr>"
      assume a: "Suc i < length (sizes ?q)" "i < length (buckets ?q)"
      then have o: "list_all (\<lambda>b. int (Cap b) \<le> sizes p1 ! i) (buckets p1 ! i)"
        using cl1 by (simp add: classified_def)
      show "list_all (\<lambda>b. int (Cap b) \<le> sizes ?q ! i) (buckets ?q ! i)"
      proof (cases "i = idx")
        case True
        have "Suc (nat (bucketIndex p (int (Cap b0)))) < length (sizes p)"
          using a(1) True fr by (simp add: idx_def)
        from bucketIndex_class[OF pos this]
        have "int (Cap (Reset b0)) \<le> sizes p1 ! idx"
          by (simp add: idx_def fr Cap_def cap_def Reset_def)
        with o True il show ?thesis by simp
      next
        case False
        with o show ?thesis by simp
      qed
    qed
    from wf sr cl show ?thesis by simp
  qed
qed

lemma Put_total: "pool_wf p \<Longrightarrow> \<exists>p'. Put p bo = Inr p'"
  using Put_cases[of p] by (cases bo) (auto simp: Put_def)

lemma Calibrate_inv:
  assumes "pool_wf p" "stored_reset p" "classified p" "Calibrate p obs = Inr p'"
  shows "pool_wf p' \<and> stored_reset p' \<and> classified p'"
proof -
  have "sizes p' = sizes p \<and> buckets p' = buckets p \<and> smallPool p' = smallPool p \<and>
        smallLimit p' = smallLimit p \<and> observeEvery p' = observeEvery p \<and>
        bucketHits p' = bucketHits p"
    using assms(4)
    by (auto simp: Calibrate_def call_metrics_def split: if_splits sum.splits)
  with assms(1-3) show ?thesis
    by (simp add: pool_wf_def stored_reset_def classified_def)
qed

lemma apply_pool_op_inv:
  assumes "pool_wf p" "stored_reset p" "classified p" "apply_pool_op p x = Inr p'"
  shows "pool_wf p' \<and> stored_reset p' \<and> classified p'"
proof -
  have g: "pool_wf (p\<lparr>gets := i64 (gets p + 1)\<rparr>)" "stored_reset (p\<lparr>gets := i64 (gets p + 1)\<rparr>)"
    "classified (p\<lparr>gets := i64 (gets p + 1)\<rparr>)"
    using assms(1-3) by (simp_all add: pool_wf_def stored_reset_def classified_def)
  show ?thesis
  proof (cases x)
    case (PGet pick)
    with assms(4) obtain b where "getSized (p\<lparr>gets := i64 (gets p + 1)\<rparr>) pick (defaultCap p) = Inr (b, p')"
      by (cases "Get p pick") (auto simp: Get_def)
    from getSized_inv[OF g this] show ?thesis .
  next
    case (PGetSized pick n)
    with assms(4) obtain b where "getSized (p\<lparr>gets := i64 (gets p + 1)\<rparr>) pick n = Inr (b, p')"
      by (cases "GetSized p pick n") (auto simp: GetSized_def)
    from getSized_inv[OF g this] show ?thesis .
  next
    case (PBorrow pick n)
    with assms(4) obtain b where "getSized (p\<lparr>gets := i64 (gets p + 1)\<rparr>) pick n = Inr (b, p')"
      by (cases "getSized (p\<lparr>gets := i64 (gets p + 1)\<rparr>) pick n") (auto simp: Borrow_def)
    from getSized_inv[OF g this] show ?thesis .
  next
    case (PPut bo)
    with assms(4) have "Put p bo = Inr p'" by simp
    from Put_inv[OF assms(1-3) this] show ?thesis .
  next
    case (PCalibrate n)
    with assms(4) have "Calibrate p n = Inr p'" by simp
    from Calibrate_inv[OF assms(1-3) this] show ?thesis .
  qed
qed

lemma run_pool_inv:
  assumes "pool_wf p" "stored_reset p" "classified p" "run_pool p ops = Inr p'"
  shows "pool_wf p' \<and> stored_reset p' \<and> classified p'"
  using assms
proof (induction ops arbitrary: p)
  case Nil
  then show ?case by simp
next
  case (Cons x xs)
  from Cons.prems(4) obtain p1 where a: "apply_pool_op p x = Inr p1" and rest: "run_pool p1 xs = Inr p'"
    by (auto split: sum.splits)
  from apply_pool_op_inv[OF Cons.prems(1-3) a] Cons.IH[of p1] rest show ?case by simp
qed

lemma reachable_inv:
  assumes "reachable opts ops p"
  shows "pool_wf p \<and> stored_reset p \<and> classified p"
proof -
  from constructor_total[of opts] obtain p0 where
    c: "NewBufferPoolWithOptions opts = Inr p0" and i: "pool_wf p0" "stored_reset p0" "classified p0"
    by blast
  from assms c have "run_pool p0 ops = Inr p" by (simp add: reachable_def)
  from run_pool_inv[OF i this] show ?thesis .
qed

lemma table_pool_constructed: "NewBufferPoolWithOptions table_opts = Inr table_pool"
  by (simp add: NewBufferPoolWithOptions_def table_opts_def table_pool_def normalizeSizes_def
      Let_def chooseCap_def minInt_def defaultCalibrateThreshold_def)

text \<open>The definitions that evaluate a pool operation on a concrete pool.\<close>

lemmas pool_eval =
  GetSized_def Get_def getSized_def Put_def observeSize_def recalibratePercentile_def
  Calibrate_def call_metrics_def chooseCap_def bucketIndex_def pool_Get_def pool_Put_def
  table_pool_def grown_buffer_def NewBuffer_def Reset_def grow_def Let_def cap_def Cap_def
  i64_def nextPowerOfTwo_def make_slice_def slice_from_def slice_copy_def copy_into_def
  go_rem_def

lemma recalibratePercentile_abort:
  assumes "sum_counts (bucketHits p) 0 \<le> 0 \<or> sum_counts (bucketHits p) 0 < calibrateThr p"
  shows "recalibratePercentile p = Inr (p\<lparr>bucketHits := replicate (length (bucketHits p)) 0\<rparr>)"
  using assms by (auto simp: recalibratePercentile_def Let_def)

lemma chooseCap_class:
  assumes "szs \<noteq> []" "sorted szs" "0 < obs"
  shows "\<exists>c. chooseCap szs obs = Inr c \<and> c \<in> set szs \<and>
           ((\<exists>s\<in>set szs. obs \<le> s) \<longrightarrow> obs \<le> c \<and> (\<forall>s\<in>set szs. obs \<le> s \<longrightarrow> c \<le> s)) \<and>
           ((\<forall>s\<in>set szs. s < obs) \<longrightarrow> c = last szs \<and> (\<forall>s\<in>set szs. s \<le> c))"
proof (cases "chooseCap_loop szs obs")
  case None
  then have a: "\<forall>s\<in>set szs. s < obs" by (simp add: chooseCap_loop_None)
  have l: "szs ! (length szs - 1) = last szs" using assms(1) by (simp add: last_conv_nth)
  have m: "\<forall>s\<in>set szs. s \<le> last szs"
    using assms(1,2) by (metis sorted_append append_butlast_last_id order_refl
        in_set_butlastD in_set_butlast_appendI Un_iff set_append empty_iff empty_set insert_iff
        list.simps(15))
  have "chooseCap szs obs = Inr (last szs)"
    using None assms(1,3) l by (simp add: chooseCap_def)
  with a m assms(1) show ?thesis by auto
next
  case (Some s)
  from chooseCap_loop_Some[OF Some] assms(2)
  have s: "s \<in> set szs" "obs \<le> s" "\<forall>s'\<in>set szs. obs \<le> s' \<longrightarrow> s \<le> s'" by simp_all
  have "chooseCap szs obs = Inr s" using Some assms(1,3) by (simp add: chooseCap_def)
  with s show ?thesis by force
qed

section \<open>Claims on the pool\<close>

subsection \<open>C1: classification of the stored buffers\<close>

text \<open>
  C1, as amended. In every pool state that a constructor and a sequence of
  \<^verbatim>\<open>Get\<close>, \<^verbatim>\<open>GetSized\<close>, \<^verbatim>\<open>Borrow\<close>, \<^verbatim>\<open>Put\<close> and \<^verbatim>\<open>Calibrate\<close> calls reach, every
  buffer held in the sub-pool of a class \<open>i\<close> other than the largest class has
  capacity at most \<open>sizes[i]\<close>. \<^verbatim>\<open>Put\<close> takes the buffer as its caller returns it,
  whatever was done to it while it was checked out.
\<close>

theorem stored_buffers_classified:
  assumes "reachable opts ops p" "Suc i < length (sizes p)" "b \<in> set (buckets p ! i)"
  shows "int (Cap b) \<le> sizes p ! i"
proof -
  from reachable_inv[OF assms(1)] have "pool_wf p" "classified p" by simp_all
  then have "list_all (\<lambda>b. int (Cap b) \<le> sizes p ! i) (buckets p ! i)"
    using assms(2) by (simp add: classified_def pool_wf_def)
  with assms(3) show ?thesis by (simp add: list_all_iff)
qed

text \<open>
  Reclassification on growth: \<^verbatim>\<open>GetSized(10)\<close> on the pool with classes
  \<open>{16, 32, 64}\<close> hands out a buffer of capacity 16 from the small pool; the caller
  writes 20 bytes, which grows it to capacity 32, and puts it back: it is held for
  class 32.
\<close>

theorem stored_buffers_classified_witness:
  "reachable table_opts
     [PGetSized None 10,
      PPut (Some \<lparr>buf = \<lparr>arr = replicate 32 (CHR 0x00), len = 20\<rparr>, r = 0\<rparr>)]
     (table_pool\<lparr>gets := 1, allocs := 1, puts := 1, observed := 1, bucketHits := [0, 1, 0],
        buckets := [[], [\<lparr>buf = \<lparr>arr = replicate 32 (CHR 0x00), len = 0\<rparr>, r = 0\<rparr>], []]\<rparr>) \<and>
   Suc 1 < length (sizes (table_pool\<lparr>gets := 1, allocs := 1, puts := 1, observed := 1,
        bucketHits := [0, 1, 0],
        buckets := [[], [\<lparr>buf = \<lparr>arr = replicate 32 (CHR 0x00), len = 0\<rparr>, r = 0\<rparr>], []]\<rparr>)) \<and>
   \<lparr>buf = \<lparr>arr = replicate 32 (CHR 0x00), len = 0\<rparr>, r = 0\<rparr>
     \<in> set (buckets (table_pool\<lparr>gets := 1, allocs := 1, puts := 1, observed := 1,
        bucketHits := [0, 1, 0],
        buckets := [[], [\<lparr>buf = \<lparr>arr = replicate 32 (CHR 0x00), len = 0\<rparr>, r = 0\<rparr>], []]\<rparr>) ! 1) \<and>
   int (Cap \<lparr>buf = \<lparr>arr = replicate 32 (CHR 0x00), len = 0\<rparr>, r = 0\<rparr>)
     \<le> sizes (table_pool\<lparr>gets := 1, allocs := 1, puts := 1, observed := 1,
        bucketHits := [0, 1, 0],
        buckets := [[], [\<lparr>buf = \<lparr>arr = replicate 32 (CHR 0x00), len = 0\<rparr>, r = 0\<rparr>], []]\<rparr>) ! 1"
proof -
  let ?b = "\<lparr>buf = \<lparr>arr = replicate 32 (CHR 0x00), len = 0\<rparr>, r = 0\<rparr>"
  let ?p = "table_pool\<lparr>gets := 1, allocs := 1, puts := 1, observed := 1,
        bucketHits := [0, 1, 0], buckets := [[], [?b], []]\<rparr>"
  have g: "GetSized table_pool None 10 = Inr (NewBuffer 16, table_pool\<lparr>gets := 1, allocs := 1\<rparr>)"
    by (simp add: pool_eval)
  have p: "Put (table_pool\<lparr>gets := 1, allocs := 1\<rparr>)
             (Some \<lparr>buf = \<lparr>arr = replicate 32 (CHR 0x00), len = 20\<rparr>, r = 0\<rparr>) = Inr ?p"
    by (simp add: pool_eval)
  have r: "reachable table_opts
     [PGetSized None 10,
      PPut (Some \<lparr>buf = \<lparr>arr = replicate 32 (CHR 0x00), len = 20\<rparr>, r = 0\<rparr>)] ?p"
    by (simp add: reachable_def table_pool_constructed g p)
  have l: "Suc 1 < length (sizes ?p)" by (simp add: table_pool_def)
  have m: "?b \<in> set (buckets ?p ! 1)" by simp
  from stored_buffers_classified[OF r l m] r l m show ?thesis by (intro conjI)
qed

text \<open>
  C1 as stated fails for the largest class: \<^verbatim>\<open>bucketIndex\<close> returns the last index
  for a size above every class. \<^verbatim>\<open>GetSized(100)\<close> on the pool with classes
  \<open>{16, 32, 64}\<close> draws a buffer of capacity 64 and grows it to 128; \<^verbatim>\<open>Put\<close> stores
  it in the sub-pool of class 64.
\<close>

theorem oversize_in_last_class_counterexample:
  "NewBufferPoolWithOptions table_opts = Inr table_pool \<and>
   GetSized table_pool None 100 = Inr (grown_buffer, table_pool\<lparr>gets := 1, allocs := 1\<rparr>) \<and>
   Put (table_pool\<lparr>gets := 1, allocs := 1\<rparr>) (Some grown_buffer) =
     Inr (table_pool\<lparr>gets := 1, allocs := 1, puts := 1, observed := 1,
                      bucketHits := [0, 0, 1], buckets := [[], [], [grown_buffer]]\<rparr>) \<and>
   grown_buffer \<in> set (buckets (table_pool\<lparr>gets := 1, allocs := 1, puts := 1, observed := 1,
                      bucketHits := [0, 0, 1], buckets := [[], [], [grown_buffer]]\<rparr>) ! 2) \<and>
   sizes (table_pool\<lparr>gets := 1, allocs := 1, puts := 1, observed := 1,
                      bucketHits := [0, 0, 1], buckets := [[], [], [grown_buffer]]\<rparr>) ! 2 = 64 \<and>
   Cap grown_buffer = 128 \<and>
   \<not> int (Cap grown_buffer) \<le>
       sizes (table_pool\<lparr>gets := 1, allocs := 1, puts := 1, observed := 1,
                      bucketHits := [0, 0, 1], buckets := [[], [], [grown_buffer]]\<rparr>) ! 2"
proof -
  have g: "GetSized table_pool None 100 = Inr (grown_buffer, table_pool\<lparr>gets := 1, allocs := 1\<rparr>)"
    by (simp add: pool_eval)
  have p: "Put (table_pool\<lparr>gets := 1, allocs := 1\<rparr>) (Some grown_buffer) =
     Inr (table_pool\<lparr>gets := 1, allocs := 1, puts := 1, observed := 1,
                      bucketHits := [0, 0, 1], buckets := [[], [], [grown_buffer]]\<rparr>)"
    by (simp add: pool_eval)
  have c: "Cap grown_buffer = 128" by (simp add: grown_buffer_def Cap_def cap_def)
  have s: "sizes (table_pool\<lparr>gets := 1, allocs := 1, puts := 1, observed := 1,
                      bucketHits := [0, 0, 1], buckets := [[], [], [grown_buffer]]\<rparr>) ! 2 = 64"
    by (simp add: table_pool_def)
  have m: "grown_buffer \<in> set (buckets (table_pool\<lparr>gets := 1, allocs := 1, puts := 1,
                      observed := 1,
                      bucketHits := [0, 0, 1], buckets := [[], [], [grown_buffer]]\<rparr>) ! 2)"
    by simp
  have n: "\<not> int (Cap grown_buffer) \<le>
       sizes (table_pool\<lparr>gets := 1, allocs := 1, puts := 1, observed := 1,
                      bucketHits := [0, 0, 1], buckets := [[], [], [grown_buffer]]\<rparr>) ! 2"
    by (simp only: c s)
  from table_pool_constructed g p m s c n show ?thesis by (intro conjI)
qed

subsection \<open>C5: the capacity of the buffer handed out\<close>

text \<open>
  C5, as amended. In every reachable pool state, for every \<open>n \<le> 2^62\<close> (negative
  \<open>n\<close> included) and whichever buffer the sub-pool hands out, \<^verbatim>\<open>GetSized(n)\<close>
  returns a buffer whose capacity is at least \<open>n\<close>.
\<close>

theorem GetSized_capacity:
  assumes "reachable opts ops p" "n \<le> 2 ^ 62"
  shows "\<exists>b p'. GetSized p pick n = Inr (b, p') \<and> n \<le> int (Cap b)"
proof -
  from reachable_inv[OF assms(1)] have "pool_wf p" "stored_reset p" by simp_all
  then have "pool_wf (p\<lparr>gets := i64 (gets p + 1)\<rparr>)" "stored_reset (p\<lparr>gets := i64 (gets p + 1)\<rparr>)"
    by (simp_all add: pool_wf_def stored_reset_def)
  from getSized_total[OF this, of n pick] assms(2) show ?thesis by (simp add: GetSized_def)
qed

text \<open>
  The three paths on the pool with classes \<open>{16, 32, 64}\<close> and small limit 16:
  \<open>n = 10\<close> takes the small pool, \<open>n = 20\<close> the class 32, and \<open>n = 100\<close> exceeds
  every class: the buffer of the largest class is grown to 128.
\<close>

theorem GetSized_capacity_witness:
  "reachable table_opts [] table_pool \<and> (10::int) \<le> 2 ^ 62 \<and> (20::int) \<le> 2 ^ 62 \<and>
   (100::int) \<le> 2 ^ 62 \<and>
   GetSized table_pool None 10 = Inr (NewBuffer 16, table_pool\<lparr>gets := 1, allocs := 1\<rparr>) \<and>
   GetSized table_pool None 20 = Inr (NewBuffer 32, table_pool\<lparr>gets := 1, allocs := 1\<rparr>) \<and>
   GetSized table_pool None 100 = Inr (grown_buffer, table_pool\<lparr>gets := 1, allocs := 1\<rparr>) \<and>
   10 \<le> int (Cap (NewBuffer 16)) \<and> 20 \<le> int (Cap (NewBuffer 32)) \<and>
   100 \<le> int (Cap grown_buffer) \<and>
   (\<exists>b p'. GetSized table_pool None 100 = Inr (b, p') \<and> 100 \<le> int (Cap b))"
proof -
  have r: "reachable table_opts [] table_pool"
    by (simp add: reachable_def table_pool_constructed)
  have n: "(100::int) \<le> 2 ^ 62" by simp
  have g1: "GetSized table_pool None 10 = Inr (NewBuffer 16, table_pool\<lparr>gets := 1, allocs := 1\<rparr>)"
    by (simp add: pool_eval)
  have g2: "GetSized table_pool None 20 = Inr (NewBuffer 32, table_pool\<lparr>gets := 1, allocs := 1\<rparr>)"
    by (simp add: pool_eval)
  have g3: "GetSized table_pool None 100 = Inr (grown_buffer, table_pool\<lparr>gets := 1, allocs := 1\<rparr>)"
    by (simp add: pool_eval)
  have c: "10 \<le> int (Cap (NewBuffer 16))" "20 \<le> int (Cap (NewBuffer 32))"
    "100 \<le> int (Cap grown_buffer)"
    by (simp_all add: NewBuffer_def Cap_def cap_def grown_buffer_def)
  have s: "(10::int) \<le> 2 ^ 62" "(20::int) \<le> 2 ^ 62" by simp_all
  from GetSized_capacity[OF r n, of None] r s n g1 g2 g3 c show ?thesis by (intro conjI)
qed

text \<open>
  C5 as stated fails above \<open>2^62\<close>: for \<open>n = 2^62 + 1\<close> \<^verbatim>\<open>nextPowerOfTwo\<close> wraps to
  \<open>-2^63\<close> and \<^verbatim>\<open>make\<close> panics, so \<^verbatim>\<open>GetSized\<close> returns no buffer.
\<close>

theorem GetSized_overflow_counterexample:
  "NewBufferPoolWithOptions table_opts = Inr table_pool \<and>
   (0::int) \<le> 4611686018427387905 \<and>
   GetSized table_pool None 4611686018427387905 = Inl MakeSliceOutOfRange"
proof -
  have "GetSized table_pool None 4611686018427387905 = Inl MakeSliceOutOfRange"
    by (simp add: pool_eval)
  with table_pool_constructed show ?thesis by simp
qed

subsection \<open>C7: an aborted calibration discards its samples\<close>

text \<open>
  C7. Let \<^verbatim>\<open>Put\<close> return a buffer of positive capacity to a reachable pool, so that
  a sample is recorded, let the sample count reach a multiple of the observation
  interval, so that the calibration pass runs, and let the total of the hit counters,
  this sample included, be zero or below the calibration threshold. Then \<^verbatim>\<open>Put\<close>
  returns, the default capacity and the calibration counter are as before, and every
  hit counter is zero: the samples of the window are gone. More generally, on any pool
  whose counters add up to zero or to less than the threshold,
  \<^verbatim>\<open>recalibratePercentile\<close> changes nothing but the counters, which it zeroes.
\<close>

theorem calibration_abort_discards:
  assumes "reachable opts ops q"
    and "0 < Cap b"
    and "go_rem (i64 (observed q + 1)) (observeEvery q) = 0"
    and "hits = (bucketHits q)[nat (bucketIndex q (int (Cap b))) :=
                   i64 (bucketHits q ! nat (bucketIndex q (int (Cap b))) + 1)]"
    and "sum_counts hits 0 \<le> 0 \<or> sum_counts hits 0 < calibrateThr q"
  shows "(\<exists>q'. Put q (Some b) = Inr q' \<and>
              defaultCap q' = defaultCap q \<and> calibrations q' = calibrations q \<and>
              bucketHits q' = replicate (length (bucketHits q)) 0) \<and>
         (\<forall>p. sum_counts (bucketHits p) 0 \<le> 0 \<or> sum_counts (bucketHits p) 0 < calibrateThr p \<longrightarrow>
              recalibratePercentile p =
                Inr (p\<lparr>bucketHits := replicate (length (bucketHits p)) 0\<rparr>))"
proof -
  from reachable_inv[OF assms(1)] have wf: "pool_wf q" by simp
  define idx where "idx = bucketIndex q (int (Cap b))"
  define p2 where "p2 = q\<lparr>puts := i64 (puts q + 1), bucketHits := hits,
                          observed := i64 (observed q + 1)\<rparr>"
  have ok: "0 \<le> idx" "idx < int (length (bucketHits q))"
    using bucketIndex_range[of q "int (Cap b)"] wf by (simp_all add: idx_def pool_wf_def)
  have oe: "0 < observeEvery q" using wf by (simp add: pool_wf_def)
  have ab: "recalibratePercentile p2 = Inr (p2\<lparr>bucketHits := replicate (length (bucketHits p2)) 0\<rparr>)"
    using assms(5) by (intro recalibratePercentile_abort) (simp add: p2_def)
  have os: "observeSize (q\<lparr>puts := i64 (puts q + 1)\<rparr>) (int (Cap b)) idx =
              Inr (p2\<lparr>bucketHits := replicate (length (bucketHits q)) 0\<rparr>)"
  proof -
    have "observeSize (q\<lparr>puts := i64 (puts q + 1)\<rparr>) (int (Cap b)) idx = recalibratePercentile p2"
      using assms(2,3) oe ok
      by (simp add: observeSize_def Let_def p2_def assms(4) idx_def)
    also have "\<dots> = Inr (p2\<lparr>bucketHits := replicate (length (bucketHits q)) 0\<rparr>)"
      by (simp add: ab) (simp add: p2_def assms(4))
    finally show ?thesis .
  qed
  from Put_cases[OF wf, of b] obtain p1 where
    o1: "observeSize (q\<lparr>puts := i64 (puts q + 1)\<rparr>) (int (Cap b)) idx = Inr p1"
    and pe: "Put q (Some b) =
             Inr (if int (Cap b) \<le> smallLimit q
                  then p1\<lparr>smallPool := smallPool p1 @ [Reset b]\<rparr>
                  else p1\<lparr>buckets := (buckets p1)[nat idx := buckets p1 ! nat idx @ [Reset b]]\<rparr>)"
    unfolding idx_def by blast
  from o1 os have p1: "p1 = p2\<lparr>bucketHits := replicate (length (bucketHits q)) 0\<rparr>" by simp
  have 1: "\<exists>q'. Put q (Some b) = Inr q' \<and>
              defaultCap q' = defaultCap q \<and> calibrations q' = calibrations q \<and>
              bucketHits q' = replicate (length (bucketHits q)) 0"
    by (cases "int (Cap b) \<le> smallLimit q") (simp_all add: pe p1 p2_def)
  have 2: "\<forall>p. sum_counts (bucketHits p) 0 \<le> 0 \<or> sum_counts (bucketHits p) 0 < calibrateThr p \<longrightarrow>
              recalibratePercentile p =
                Inr (p\<lparr>bucketHits := replicate (length (bucketHits p)) 0\<rparr>)"
    by (intro allI impI) (rule recalibratePercentile_abort)
  show ?thesis by (rule conjI[OF 1 2])
qed

text \<open>
  The pool with classes \<open>{16, 32, 64}\<close> and observation interval 2: the second
  \<^verbatim>\<open>Put\<close> of a buffer of capacity 32 runs the pass on the counters \<open>[0, 2, 0]\<close>, far
  below the threshold 42000, and leaves \<open>[0, 0, 0]\<close>, default capacity 16 and no
  calibration counted.
\<close>

theorem calibration_abort_discards_witness:
  "reachable (table_opts\<lparr>ObserveEvery := 2\<rparr>) [PPut (Some (NewBuffer 32))]
     (table_pool\<lparr>observeEvery := 2, puts := 1, observed := 1, bucketHits := [0, 1, 0],
                  buckets := [[], [NewBuffer 32], []]\<rparr>) \<and>
   0 < Cap (NewBuffer 32) \<and>
   go_rem (i64 (observed (table_pool\<lparr>observeEvery := 2, puts := 1, observed := 1,
                  bucketHits := [0, 1, 0], buckets := [[], [NewBuffer 32], []]\<rparr>) + 1))
     (observeEvery (table_pool\<lparr>observeEvery := 2, puts := 1, observed := 1,
                  bucketHits := [0, 1, 0], buckets := [[], [NewBuffer 32], []]\<rparr>)) = 0 \<and>
   sum_counts [0, 2, 0] 0 = 2 \<and>
   sum_counts [0, 2, 0] 0
     < calibrateThr (table_pool\<lparr>observeEvery := 2, puts := 1, observed := 1,
                  bucketHits := [0, 1, 0], buckets := [[], [NewBuffer 32], []]\<rparr>) \<and>
   Put (table_pool\<lparr>observeEvery := 2, puts := 1, observed := 1, bucketHits := [0, 1, 0],
                  buckets := [[], [NewBuffer 32], []]\<rparr>) (Some (NewBuffer 32)) =
     Inr (table_pool\<lparr>observeEvery := 2, puts := 2, observed := 2, bucketHits := [0, 0, 0],
                  buckets := [[], [NewBuffer 32, NewBuffer 32], []]\<rparr>) \<and>
   defaultCap (table_pool\<lparr>observeEvery := 2, puts := 2, observed := 2, bucketHits := [0, 0, 0],
                  buckets := [[], [NewBuffer 32, NewBuffer 32], []]\<rparr>) = 16 \<and>
   calibrations (table_pool\<lparr>observeEvery := 2, puts := 2, observed := 2,
                  bucketHits := [0, 0, 0],
                  buckets := [[], [NewBuffer 32, NewBuffer 32], []]\<rparr>) = 0 \<and>
   (\<exists>q'. Put (table_pool\<lparr>observeEvery := 2, puts := 1, observed := 1, bucketHits := [0, 1, 0],
                  buckets := [[], [NewBuffer 32], []]\<rparr>) (Some (NewBuffer 32)) = Inr q' \<and>
         bucketHits q' = [0, 0, 0])"
proof -
  let ?q = "table_pool\<lparr>observeEvery := 2, puts := 1, observed := 1, bucketHits := [0, 1, 0],
                  buckets := [[], [NewBuffer 32], []]\<rparr>"
  let ?q' = "table_pool\<lparr>observeEvery := 2, puts := 2, observed := 2, bucketHits := [0, 0, 0],
                  buckets := [[], [NewBuffer 32, NewBuffer 32], []]\<rparr>"
  have c: "NewBufferPoolWithOptions (table_opts\<lparr>ObserveEvery := 2\<rparr>) =
      Inr (table_pool\<lparr>observeEvery := 2\<rparr>)"
    by (simp add: NewBufferPoolWithOptions_def table_opts_def table_pool_def normalizeSizes_def
      Let_def chooseCap_def minInt_def defaultCalibrateThreshold_def)
  have p1: "Put (table_pool\<lparr>observeEvery := 2\<rparr>) (Some (NewBuffer 32)) = Inr ?q"
    by (simp add: pool_eval)
  have r: "reachable (table_opts\<lparr>ObserveEvery := 2\<rparr>) [PPut (Some (NewBuffer 32))] ?q"
    by (simp add: reachable_def c p1)
  have b: "0 < Cap (NewBuffer 32)" by (simp add: Cap_def cap_def NewBuffer_def)
  have g: "go_rem (i64 (observed ?q + 1)) (observeEvery ?q) = 0"
    by (simp add: go_rem_def i64_def)
  have h: "[0, 2, 0] = (bucketHits ?q)[nat (bucketIndex ?q (int (Cap (NewBuffer 32)))) :=
                   i64 (bucketHits ?q ! nat (bucketIndex ?q (int (Cap (NewBuffer 32)))) + 1)]"
    by (simp add: bucketIndex_def table_pool_def Cap_def cap_def NewBuffer_def i64_def)
  have s: "sum_counts [0, 2, 0] 0 = 2" by (simp add: i64_def)
  have t: "sum_counts [0, 2, 0] 0 < calibrateThr ?q" by (simp add: table_pool_def i64_def)
  then have t': "sum_counts [0, 2, 0] 0 \<le> 0 \<or> sum_counts [0, 2, 0] 0 < calibrateThr ?q" ..
  have p2: "Put ?q (Some (NewBuffer 32)) = Inr ?q'"
    by (simp add: pool_eval)
  have d: "defaultCap ?q' = 16" "calibrations ?q' = 0" by (simp_all add: table_pool_def)
  from calibration_abort_discards[OF r b g h t', THEN conjunct1]
  have "\<exists>q'. Put ?q (Some (NewBuffer 32)) = Inr q' \<and> bucketHits q' = [0, 0, 0]"
    by (auto simp: table_pool_def)
  with r b g s t p2 d show ?thesis by (intro conjI)
qed

subsection \<open>C8: manual calibration\<close>

text \<open>
  C8, as amended. On a reachable pool \<^verbatim>\<open>Calibrate(observedSize)\<close> is a no-op for
  \<open>observedSize \<le> 0\<close>; for \<open>observedSize > 0\<close> it sets the default capacity to a size
  class: the smallest class that is at least \<open>observedSize\<close> if there is one, and the
  largest class otherwise. On the freshly constructed pool with class table
  \<open>{16, 32, 64}\<close> and no other option set, \<^verbatim>\<open>Calibrate(40)\<close> sets the default
  capacity to 64 and the next \<^verbatim>\<open>Get()\<close> returns a buffer of capacity exactly 64,
  whatever the sub-pool hands out.
\<close>

theorem Calibrate_chooses_class:
  assumes "reachable opts ops p"
  shows "(obs \<le> 0 \<longrightarrow> Calibrate p obs = Inr p) \<and>
         (0 < obs \<longrightarrow>
            (\<exists>p'. Calibrate p obs = Inr p' \<and> defaultCap p' \<in> set (sizes p) \<and>
               ((\<exists>s\<in>set (sizes p). obs \<le> s) \<longrightarrow>
                  obs \<le> defaultCap p' \<and> (\<forall>s\<in>set (sizes p). obs \<le> s \<longrightarrow> defaultCap p' \<le> s)) \<and>
               ((\<forall>s\<in>set (sizes p). s < obs) \<longrightarrow>
                  defaultCap p' = last (sizes p) \<and> (\<forall>s\<in>set (sizes p). s \<le> defaultCap p')))) \<and>
         (NewBufferPoolWithOptions table_opts = Inr table_pool \<and>
          Calibrate table_pool 40 = Inr (table_pool\<lparr>defaultCap := 64, calibrations := 1\<rparr>) \<and>
          Get (table_pool\<lparr>defaultCap := 64, calibrations := 1\<rparr>) pick =
            Inr (NewBuffer 64, table_pool\<lparr>defaultCap := 64, calibrations := 1, gets := 1,
                                           allocs := 1\<rparr>) \<and>
          Cap (NewBuffer 64) = 64)"
proof -
  from reachable_inv[OF assms] have wf: "sizes p \<noteq> []" "sorted (sizes p)"
    by (simp_all add: pool_wf_def)
  have 1: "obs \<le> 0 \<longrightarrow> Calibrate p obs = Inr p" by (simp add: Calibrate_def)
  have 2: "0 < obs \<longrightarrow>
            (\<exists>p'. Calibrate p obs = Inr p' \<and> defaultCap p' \<in> set (sizes p) \<and>
               ((\<exists>s\<in>set (sizes p). obs \<le> s) \<longrightarrow>
                  obs \<le> defaultCap p' \<and> (\<forall>s\<in>set (sizes p). obs \<le> s \<longrightarrow> defaultCap p' \<le> s)) \<and>
               ((\<forall>s\<in>set (sizes p). s < obs) \<longrightarrow>
                  defaultCap p' = last (sizes p) \<and> (\<forall>s\<in>set (sizes p). s \<le> defaultCap p')))"
  proof
    assume o: "0 < obs"
    from chooseCap_class[OF wf o] obtain c where
      c: "chooseCap (sizes p) obs = Inr c" "c \<in> set (sizes p)"
      "(\<exists>s\<in>set (sizes p). obs \<le> s) \<longrightarrow> obs \<le> c \<and> (\<forall>s\<in>set (sizes p). obs \<le> s \<longrightarrow> c \<le> s)"
      "(\<forall>s\<in>set (sizes p). s < obs) \<longrightarrow> c = last (sizes p) \<and> (\<forall>s\<in>set (sizes p). s \<le> c)"
      by blast
    have e: "Calibrate p obs =
        Inr (call_metrics (p\<lparr>defaultCap := c, calibrations := i64 (calibrations p + 1)\<rparr>))"
      using o c(1) by (simp add: Calibrate_def)
    have d: "defaultCap (call_metrics (p\<lparr>defaultCap := c, calibrations := i64 (calibrations p + 1)\<rparr>)) = c"
      by (simp add: call_metrics_def)
    show "\<exists>p'. Calibrate p obs = Inr p' \<and> defaultCap p' \<in> set (sizes p) \<and>
               ((\<exists>s\<in>set (sizes p). obs \<le> s) \<longrightarrow>
                  obs \<le> defaultCap p' \<and> (\<forall>s\<in>set (sizes p). obs \<le> s \<longrightarrow> defaultCap p' \<le> s)) \<and>
               ((\<forall>s\<in>set (sizes p). s < obs) \<longrightarrow>
                  defaultCap p' = last (sizes p) \<and> (\<forall>s\<in>set (sizes p). s \<le> defaultCap p'))"
      using c(2,3,4) by (simp only: e d sum.inject ex_simps simp_thms)
  qed
  have 3: "Calibrate table_pool 40 = Inr (table_pool\<lparr>defaultCap := 64, calibrations := 1\<rparr>)"
    by (simp add: pool_eval)
  have 4: "Get (table_pool\<lparr>defaultCap := 64, calibrations := 1\<rparr>) pick =
            Inr (NewBuffer 64, table_pool\<lparr>defaultCap := 64, calibrations := 1, gets := 1,
                                           allocs := 1\<rparr>)"
    by (cases pick) (simp_all add: Get_def getSized_def bucketIndex_def pool_Get_def table_pool_def
        Let_def cap_def NewBuffer_def i64_def)
  have 5: "Cap (NewBuffer 64) = 64" by (simp add: Cap_def cap_def NewBuffer_def)
  show ?thesis by (rule conjI[OF 1 conjI[OF 2 conjI[OF table_pool_constructed conjI[OF 3 conjI[OF 4 5]]]]])
qed

text \<open>The test of the repository: class table \<open>{16, 32, 64}\<close>, \<^verbatim>\<open>Calibrate(40)\<close>, \<^verbatim>\<open>Get()\<close>.\<close>

theorem Calibrate_chooses_class_witness:
  "reachable table_opts [] table_pool \<and> (0::int) < 40 \<and>
   Calibrate table_pool 40 = Inr (table_pool\<lparr>defaultCap := 64, calibrations := 1\<rparr>) \<and>
   defaultCap (table_pool\<lparr>defaultCap := 64, calibrations := 1\<rparr>) = 64 \<and>
   sizes table_pool = [16, 32, 64] \<and>
   Calibrate table_pool 0 = Inr table_pool \<and>
   Get (table_pool\<lparr>defaultCap := 64, calibrations := 1\<rparr>) None =
     Inr (NewBuffer 64, table_pool\<lparr>defaultCap := 64, calibrations := 1, gets := 1, allocs := 1\<rparr>) \<and>
   Cap (NewBuffer 64) = 64"
proof -
  have r: "reachable table_opts [] table_pool"
    by (simp add: reachable_def table_pool_constructed)
  note t = Calibrate_chooses_class[OF r]
  have 0: "Calibrate table_pool 0 = Inr table_pool"
    using t[of 0 None, THEN conjunct1] by simp
  note e = t[of 40 None, THEN conjunct2, THEN conjunct2]
  have 1: "Calibrate table_pool 40 = Inr (table_pool\<lparr>defaultCap := 64, calibrations := 1\<rparr>)"
    using e by (rule conjunct2[THEN conjunct1])
  have 2: "Get (table_pool\<lparr>defaultCap := 64, calibrations := 1\<rparr>) None =
     Inr (NewBuffer 64, table_pool\<lparr>defaultCap := 64, calibrations := 1, gets := 1, allocs := 1\<rparr>)"
    using e by (rule conjunct2[THEN conjunct2, THEN conjunct1])
  have 3: "Cap (NewBuffer 64) = 64"
    using e by (rule conjunct2[THEN conjunct2, THEN conjunct2])
  have 4: "defaultCap (table_pool\<lparr>defaultCap := 64, calibrations := 1\<rparr>) = 64" by simp
  have 5: "sizes table_pool = [16, 32, 64]" by (simp add: table_pool_def)
  have 6: "(0::int) < 40" by simp
  from r 6 1 4 5 0 2 3 show ?thesis by (intro conjI)
qed

text \<open>
  C8 as stated fails in two places. \<^verbatim>\<open>Calibrate(100)\<close> with classes \<open>{16, 32, 64}\<close>
  sets the default capacity to 64, the largest class, not to a class that is at
  least 100: \<^verbatim>\<open>chooseCap\<close> falls back to the last entry. And the next \<^verbatim>\<open>Get()\<close>
  after \<^verbatim>\<open>Calibrate(40)\<close> returns capacity 64 only while the sub-pool of class 64
  holds no larger buffer: after \<^verbatim>\<open>GetSized(100)\<close> and \<^verbatim>\<open>Put\<close> it holds one of
  capacity 128, and \<^verbatim>\<open>Get()\<close> hands that out.
\<close>

theorem Calibrate_above_largest_counterexample:
  "sizes table_pool = [16, 32, 64] \<and>
   Calibrate table_pool 100 = Inr (table_pool\<lparr>defaultCap := 64, calibrations := 1\<rparr>) \<and>
   defaultCap (table_pool\<lparr>defaultCap := 64, calibrations := 1\<rparr>) = 64 \<and>
   (64::int) < 100 \<and>
   reachable table_opts [PGetSized None 100, PPut (Some grown_buffer)]
     (table_pool\<lparr>gets := 1, allocs := 1, puts := 1, observed := 1,
                  bucketHits := [0, 0, 1], buckets := [[], [], [grown_buffer]]\<rparr>) \<and>
   Calibrate (table_pool\<lparr>gets := 1, allocs := 1, puts := 1, observed := 1,
                  bucketHits := [0, 0, 1], buckets := [[], [], [grown_buffer]]\<rparr>) 40 =
     Inr (table_pool\<lparr>gets := 1, allocs := 1, puts := 1, observed := 1,
                  bucketHits := [0, 0, 1], buckets := [[], [], [grown_buffer]],
                  defaultCap := 64, calibrations := 1\<rparr>) \<and>
   Get (table_pool\<lparr>gets := 1, allocs := 1, puts := 1, observed := 1,
                  bucketHits := [0, 0, 1], buckets := [[], [], [grown_buffer]],
                  defaultCap := 64, calibrations := 1\<rparr>) (Some 0) =
     Inr (grown_buffer,
          table_pool\<lparr>gets := 2, allocs := 1, puts := 1, observed := 1,
                  bucketHits := [0, 0, 1], buckets := [[], [], []],
                  defaultCap := 64, calibrations := 1\<rparr>) \<and>
   Cap grown_buffer = 128"
proof -
  let ?p = "table_pool\<lparr>gets := 1, allocs := 1, puts := 1, observed := 1,
                  bucketHits := [0, 0, 1], buckets := [[], [], [grown_buffer]]\<rparr>"
  have 1: "sizes table_pool = [16, 32, 64]" by (simp add: table_pool_def)
  have 2: "Calibrate table_pool 100 = Inr (table_pool\<lparr>defaultCap := 64, calibrations := 1\<rparr>)"
    by (simp add: pool_eval)
  have 3: "defaultCap (table_pool\<lparr>defaultCap := 64, calibrations := 1\<rparr>) = 64" by simp
  have 4: "(64::int) < 100" by simp
  have g: "GetSized table_pool None 100 = Inr (grown_buffer, table_pool\<lparr>gets := 1, allocs := 1\<rparr>)"
    by (simp add: pool_eval)
  have p: "Put (table_pool\<lparr>gets := 1, allocs := 1\<rparr>) (Some grown_buffer) = Inr ?p"
    by (simp add: pool_eval)
  have 5: "reachable table_opts [PGetSized None 100, PPut (Some grown_buffer)] ?p"
    by (simp add: reachable_def table_pool_constructed g p)
  have 6: "Calibrate ?p 40 = Inr (?p\<lparr>defaultCap := 64, calibrations := 1\<rparr>)"
    by (simp add: pool_eval)
  have 7: "Get (?p\<lparr>defaultCap := 64, calibrations := 1\<rparr>) (Some 0) =
     Inr (grown_buffer,
          table_pool\<lparr>gets := 2, allocs := 1, puts := 1, observed := 1,
                  bucketHits := [0, 0, 1], buckets := [[], [], []],
                  defaultCap := 64, calibrations := 1\<rparr>)"
    by (simp add: pool_eval)
  have 8: "Cap grown_buffer = 128" by (simp add: grown_buffer_def Cap_def cap_def)
  from 1 2 3 4 5 6 7 8 show ?thesis by (intro conjI)
qed

end
